theory Spec2Isabelle
  imports Main
begin

section \<open>Apple Podcasts episode scraper: collector loop and date normalizer\<close>

text \<open>
  The development embeds the two pieces of logic of \<^verbatim>\<open>src/main.js\<close>: the scroll-and-extract
  loop that runs in the page (\<^verbatim>\<open>page.evaluate\<close>, lines 148-212) and \<^verbatim>\<open>normalizeDate\<close>
  (lines 217-292).

  Strings are ASCII strings (\<^typ>\<open>string\<close>, one \<^typ>\<open>char\<close> per character); white space is the ASCII
  part of what JavaScript's \<^verbatim>\<open>trim\<close> and \<^verbatim>\<open>\s\<close> accept, and upper-casing is the ASCII one.
  A text with other white space (a no-break space U+00A0, for one) or other letters is
  outside the model.
\<close>

subsection \<open>Strings\<close>

definition is_space :: "char \<Rightarrow> bool" where
  "is_space c = (c = CHR '' '' \<or> c = CHR 0x09 \<or> c = CHR 0x0A \<or> c = CHR 0x0B
                 \<or> c = CHR 0x0C \<or> c = CHR 0x0D)"

definition js_trim :: "string \<Rightarrow> string" where
  "js_trim s = rev (dropWhile is_space (rev (dropWhile is_space s)))"

definition is_digit :: "char \<Rightarrow> bool" where
  "is_digit c = (c \<in> set ''0123456789'')"

definition digit_val :: "char \<Rightarrow> int" where
  "digit_val c = int (of_char c) - 48"

definition toUpperCase :: "string \<Rightarrow> string" where
  "toUpperCase s =
     map (\<lambda>c. let n = (of_char c :: nat)
              in if 97 \<le> n \<and> n \<le> 122 then char_of (n - 32) else c) s"

text \<open>\<^verbatim>\<open>parseInt(ds, 10)\<close> on a string of decimal digits.\<close>

definition parseInt :: "string \<Rightarrow> int" where
  "parseInt ds = foldl (\<lambda>n c. 10 * n + digit_val c) 0 ds"

function show_nat :: "nat \<Rightarrow> string" where
  "show_nat n =
     (if n < 10 then [char_of (48 + n)]
      else show_nat (n div 10) @ [char_of (48 + n mod 10)])"
  by pat_completeness auto
termination
  by (relation "measure id") auto

declare show_nat.simps [simp del]

definition pad_left :: "nat \<Rightarrow> string \<Rightarrow> string" where
  "pad_left k s = replicate (k - length s) (CHR ''0'') @ s"

subsection \<open>The collector loop (\<^verbatim>\<open>page.evaluate\<close>, lines 148-212)\<close>

text \<open>
  A row of the episode list, as the four \<^verbatim>\<open>querySelector\<close> lookups see it: the
  \<^verbatim>\<open>textContent\<close> of the title, summary and date elements and the \<^verbatim>\<open>href\<close> of the link,
  each \<open>None\<close> when the element is missing. \<open>Throwing\<close> is a row whose lookups raise; the
  \<^verbatim>\<open>try/catch\<close> of lines 163-185 skips it.
\<close>

datatype row =
  Row (title_text: "string option") (summary_text: "string option")
      (published_text: "string option") (link_href: "string option")
  | Throwing

record episode =
  title :: string
  description :: "string option"
  date :: "string option"
  shareUrl :: "string option"

text \<open>The body of the \<^verbatim>\<open>for\<close> loop for one row (lines 163-185).\<close>

definition push_row :: "row \<Rightarrow> episode list \<Rightarrow> episode list" where
  "push_row r results =
     (case r of
        Throwing \<Rightarrow> results
      | Row titleEl descEl dateEl linkEl \<Rightarrow>
          (case map_option js_trim titleEl of
             None \<Rightarrow> results
           | Some t \<Rightarrow>
               if t = [] then results
               else
                 let lastT = (if results \<noteq> [] then Some (title (last results)) else None)
                 in if Some t \<noteq> lastT
                    then results @ [\<lparr>title = t, description = map_option js_trim descEl,
                                     date = map_option js_trim dateEl, shareUrl = linkEl\<rparr>]
                    else results))"

text \<open>The \<^verbatim>\<open>for (const row of rows)\<close> loop with its \<^verbatim>\<open>break\<close> (lines 161-186).\<close>

fun extract_rows :: "nat \<Rightarrow> row list \<Rightarrow> episode list \<Rightarrow> episode list" where
  "extract_rows limit [] results = results"
| "extract_rows limit (r # rows) results =
     (if length results \<ge> limit then results
      else extract_rows limit rows (push_row r results))"

definition maxStableAttempts :: nat where
  "maxStableAttempts = 12"

text \<open>
  The variables of the \<^verbatim>\<open>while\<close> loop. \<open>iterations\<close> counts the iterations done so far; it
  is not a variable of the source, and it indexes the row source: \<open>getRows i\<close> is the list
  of rows in the document during iteration \<open>i\<close> (from 0). The three \<^verbatim>\<open>getRows()\<close> calls of
  one iteration run without an intervening \<^verbatim>\<open>await\<close>, so they read the same document; the
  document changes only during the \<^verbatim>\<open>sleep\<close> that ends the iteration.
\<close>

record collector_state =
  results :: "episode list"
  prevCount :: nat
  stableAttempts :: nat
  iterations :: nat

definition initial_state :: collector_state where
  "initial_state = \<lparr>results = [], prevCount = 0, stableAttempts = 0, iterations = 0\<rparr>"

text \<open>Lines 159-195: one scan of the rows, then the plateau update.\<close>

definition loop_body :: "nat \<Rightarrow> (nat \<Rightarrow> row list) \<Rightarrow> collector_state \<Rightarrow> collector_state" where
  "loop_body limit getRows st =
     (let rows = getRows (iterations st);
          res = extract_rows limit rows (results st);
          currentCount = length rows
      in if currentCount > prevCount st
         then \<lparr>results = res, prevCount = currentCount, stableAttempts = 0,
               iterations = Suc (iterations st)\<rparr>
         else \<lparr>results = res, prevCount = prevCount st,
               stableAttempts = stableAttempts st + 1,
               iterations = Suc (iterations st)\<rparr>)"

text \<open>
  The \<^verbatim>\<open>while\<close> loop (lines 158-209). It need not terminate (a source that grows for ever
  with rows that are never appended), so it is a partial function: \<open>None\<close> is a loop that
  runs for ever.
\<close>

partial_function (option) collect_loop ::
  "nat \<Rightarrow> (nat \<Rightarrow> row list) \<Rightarrow> collector_state \<Rightarrow> collector_state option" where
  "collect_loop limit getRows st =
     (if length (results st) < limit \<and> stableAttempts st < maxStableAttempts
      then let st' = loop_body limit getRows st
           in if length (results st') \<ge> limit then Some st'
              else collect_loop limit getRows st'
      else Some st)"

declare collect_loop.simps [code]

text \<open>
  The value of \<^verbatim>\<open>page.evaluate\<close>: \<^verbatim>\<open>results.slice(0, limit)\<close> (line 211). The limit is
  a natural number, the positive integer of the specification (line 20 replaces a missing
  or zero \<^verbatim>\<open>totalEpisodes\<close> by 50).
\<close>

definition collector :: "nat \<Rightarrow> (nat \<Rightarrow> row list) \<Rightarrow> episode list option" where
  "collector limit getRows =
     map_option (\<lambda>st. take limit (results st)) (collect_loop limit getRows initial_state)"

text \<open>The titles a scan can append: trimmed, non-empty, of rows that do not raise.\<close>

definition row_title :: "row \<Rightarrow> string option" where
  "row_title r =
     (case r of
        Throwing \<Rightarrow> None
      | Row titleEl descEl dateEl linkEl \<Rightarrow>
          (case map_option js_trim titleEl of
             None \<Rightarrow> None
           | Some t \<Rightarrow> if t = [] then None else Some t))"

definition row_titles :: "row list \<Rightarrow> string list" where
  "row_titles rows = List.map_filter row_title rows"

subsection \<open>Time values and calendar fields (ECMA-262, Date objects)\<close>

text \<open>
  \<^verbatim>\<open>normalizeDate\<close> relies on the \<^verbatim>\<open>Date\<close> object of the JavaScript runtime. Its abstract
  operations are written out here after ECMA-262: a time value is a number of milliseconds
  since 1970-01-01T00:00Z, months count from 0, and an invalid date (time value NaN) is
  \<open>None\<close>. The local time zone is a fixed offset \<open>tz\<close> in minutes east of UTC (a zone without
  daylight saving time, such as UTC itself or Asia/Kolkata at 330).

  Time values are exact integers. The runtime's are doubles, which are exact up to \<open>2^53\<close>;
  every time value beyond \<open>8.64\<sdot>10^15 < 2^53\<close> becomes NaN in \<open>TimeClip\<close> in both.
\<close>

definition msPerDay :: int where "msPerDay = 86400000"
definition msPerHour :: int where "msPerHour = 3600000"
definition msPerMinute :: int where "msPerMinute = 60000"
definition msPerSecond :: int where "msPerSecond = 1000"

definition Day :: "int \<Rightarrow> int" where
  "Day t = t div msPerDay"

definition TimeWithinDay :: "int \<Rightarrow> int" where
  "TimeWithinDay t = t mod msPerDay"

definition DayFromYear :: "int \<Rightarrow> int" where
  "DayFromYear y =
     365 * (y - 1970) + (y - 1969) div 4 - (y - 1901) div 100 + (y - 1601) div 400"

definition leap_year :: "int \<Rightarrow> bool" where
  "leap_year y = (y mod 4 = 0 \<and> (y mod 100 \<noteq> 0 \<or> y mod 400 = 0))"

text \<open>
  The year of a day number: ECMA-262 defines it as the largest \<open>y\<close> with
  \<open>DayFromYear y \<le> d\<close>; it is computed from an estimate that is off by at most one
  (lemmas \<open>year_from_day_bounds\<close> and \<open>year_from_day_unique\<close> below).
\<close>

definition year_from_day :: "int \<Rightarrow> int" where
  "year_from_day d =
     (let y = 1970 + (400 * d) div 146097
      in if DayFromYear (y + 1) \<le> d then y + 1
         else if DayFromYear y \<le> d then y else y - 1)"

definition YearFromTime :: "int \<Rightarrow> int" where
  "YearFromTime t = year_from_day (Day t)"

definition InLeapYear :: "int \<Rightarrow> bool" where
  "InLeapYear t = leap_year (YearFromTime t)"

definition DayWithinYear :: "int \<Rightarrow> int" where
  "DayWithinYear t = Day t - DayFromYear (YearFromTime t)"

text \<open>The day within the year on which month \<open>m\<close> (0 to 11) starts.\<close>

definition month_start :: "bool \<Rightarrow> int \<Rightarrow> int" where
  "month_start leap m =
     (let l = (if leap then 1 else 0)
      in if m = 0 then 0 else if m = 1 then 31 else if m = 2 then 59 + l
         else if m = 3 then 90 + l else if m = 4 then 120 + l else if m = 5 then 151 + l
         else if m = 6 then 181 + l else if m = 7 then 212 + l else if m = 8 then 243 + l
         else if m = 9 then 273 + l else if m = 10 then 304 + l else 334 + l)"

definition MonthFromTime :: "int \<Rightarrow> int" where
  "MonthFromTime t =
     (let d = DayWithinYear t; l = (if InLeapYear t then 1 else 0)
      in if d < 31 then 0 else if d < 59 + l then 1 else if d < 90 + l then 2
         else if d < 120 + l then 3 else if d < 151 + l then 4 else if d < 181 + l then 5
         else if d < 212 + l then 6 else if d < 243 + l then 7 else if d < 273 + l then 8
         else if d < 304 + l then 9 else if d < 334 + l then 10 else 11)"

definition DateFromTime :: "int \<Rightarrow> int" where
  "DateFromTime t = DayWithinYear t - month_start (InLeapYear t) (MonthFromTime t) + 1"

definition HourFromTime :: "int \<Rightarrow> int" where
  "HourFromTime t = (t div msPerHour) mod 24"

definition MinFromTime :: "int \<Rightarrow> int" where
  "MinFromTime t = (t div msPerMinute) mod 60"

definition SecFromTime :: "int \<Rightarrow> int" where
  "SecFromTime t = (t div msPerSecond) mod 60"

definition msFromTime :: "int \<Rightarrow> int" where
  "msFromTime t = t mod msPerSecond"

definition MakeTime :: "int \<Rightarrow> int \<Rightarrow> int \<Rightarrow> int \<Rightarrow> int" where
  "MakeTime h m s ms = h * msPerHour + m * msPerMinute + s * msPerSecond + ms"

text \<open>
  \<open>MakeDay\<close> carries a month outside 0 to 11 into the year and lets a day of the month
  outside the month run into the neighbouring months.
\<close>

definition MakeDay :: "int \<Rightarrow> int \<Rightarrow> int \<Rightarrow> int" where
  "MakeDay year month dt =
     (let ym = year + month div 12; mn = month mod 12
      in DayFromYear ym + month_start (leap_year ym) mn + dt - 1)"

definition MakeDate :: "int \<Rightarrow> int \<Rightarrow> int" where
  "MakeDate day time = day * msPerDay + time"

definition TimeClip :: "int \<Rightarrow> int option" where
  "TimeClip t = (if \<bar>t\<bar> > 8640000000000000 then None else Some t)"

definition LocalTime :: "int \<Rightarrow> int \<Rightarrow> int" where
  "LocalTime tz t = t + tz * msPerMinute"

definition UTC :: "int \<Rightarrow> int \<Rightarrow> int" where
  "UTC tz t = t - tz * msPerMinute"

subsection \<open>The methods of \<^verbatim>\<open>Date\<close> that \<^verbatim>\<open>normalizeDate\<close> calls\<close>

text \<open>A \<^verbatim>\<open>Date\<close> object is its time value: \<open>None\<close> is an invalid date.\<close>

type_synonym js_date = "int option"

definition getFullYear :: "int \<Rightarrow> int \<Rightarrow> int" where
  "getFullYear tz t = YearFromTime (LocalTime tz t)"

definition getMonth :: "int \<Rightarrow> int \<Rightarrow> int" where
  "getMonth tz t = MonthFromTime (LocalTime tz t)"

definition getDate :: "int \<Rightarrow> int \<Rightarrow> int" where
  "getDate tz t = DateFromTime (LocalTime tz t)"

definition getHours :: "int \<Rightarrow> int \<Rightarrow> int" where
  "getHours tz t = HourFromTime (LocalTime tz t)"

definition getMinutes :: "int \<Rightarrow> int \<Rightarrow> int" where
  "getMinutes tz t = MinFromTime (LocalTime tz t)"

definition getSeconds :: "int \<Rightarrow> int \<Rightarrow> int" where
  "getSeconds tz t = SecFromTime (LocalTime tz t)"

definition setSeconds :: "int \<Rightarrow> int \<Rightarrow> int \<Rightarrow> js_date" where
  "setSeconds tz t s =
     (let lt = LocalTime tz t
      in TimeClip (UTC tz (MakeDate (Day lt)
           (MakeTime (HourFromTime lt) (MinFromTime lt) s (msFromTime lt)))))"

definition setMinutes :: "int \<Rightarrow> int \<Rightarrow> int \<Rightarrow> js_date" where
  "setMinutes tz t m =
     (let lt = LocalTime tz t
      in TimeClip (UTC tz (MakeDate (Day lt)
           (MakeTime (HourFromTime lt) m (SecFromTime lt) (msFromTime lt)))))"

definition setHours :: "int \<Rightarrow> int \<Rightarrow> int \<Rightarrow> js_date" where
  "setHours tz t h =
     (let lt = LocalTime tz t
      in TimeClip (UTC tz (MakeDate (Day lt)
           (MakeTime h (MinFromTime lt) (SecFromTime lt) (msFromTime lt)))))"

definition setDate :: "int \<Rightarrow> int \<Rightarrow> int \<Rightarrow> js_date" where
  "setDate tz t dt =
     (let lt = LocalTime tz t
      in TimeClip (UTC tz (MakeDate (MakeDay (YearFromTime lt) (MonthFromTime lt) dt)
           (TimeWithinDay lt))))"

definition setMonth :: "int \<Rightarrow> int \<Rightarrow> int \<Rightarrow> js_date" where
  "setMonth tz t m =
     (let lt = LocalTime tz t
      in TimeClip (UTC tz (MakeDate (MakeDay (YearFromTime lt) m (DateFromTime lt))
           (TimeWithinDay lt))))"

definition setFullYear :: "int \<Rightarrow> int \<Rightarrow> int \<Rightarrow> js_date" where
  "setFullYear tz t y =
     (let lt = LocalTime tz t
      in TimeClip (UTC tz (MakeDate (MakeDay y (MonthFromTime lt) (DateFromTime lt))
           (TimeWithinDay lt))))"

text \<open>
  \<^verbatim>\<open>new Date(year, month, day)\<close>: local midnight of that day; a year from 0 to 99 means
  1900 to 1999.
\<close>

definition new_Date :: "int \<Rightarrow> int \<Rightarrow> int \<Rightarrow> int \<Rightarrow> js_date" where
  "new_Date tz year month day =
     (let yr = (if 0 \<le> year \<and> year \<le> 99 then 1900 + year else year)
      in TimeClip (UTC tz (MakeDate (MakeDay yr month day) (MakeTime 0 0 0 0))))"

definition month_names :: "string list" where
  "month_names = [''January'', ''February'', ''March'', ''April'', ''May'', ''June'', ''July'',
                  ''August'', ''September'', ''October'', ''November'', ''December'']"

text \<open>
  \<^verbatim>\<open>toLocaleDateString('en-GB', {day: 'numeric', month: 'long', year: 'numeric'})\<close>, in the
  local zone. The year is the year of the era, as the runtime's formatter prints it: year
  0 is 1 (BC) and year \<open>-1\<close> is 2.
\<close>

definition toLocaleDateString :: "int \<Rightarrow> js_date \<Rightarrow> string" where
  "toLocaleDateString tz d =
     (case d of
        None \<Rightarrow> ''Invalid Date''
      | Some t \<Rightarrow>
          let lt = LocalTime tz t; y = YearFromTime lt
          in show_nat (nat (DateFromTime lt)) @ '' '' @ month_names ! nat (MonthFromTime lt)
             @ '' '' @ show_nat (nat (if y \<le> 0 then 1 - y else y)))"

datatype js_error = RangeError

text \<open>
  \<^verbatim>\<open>toISOString()\<close>: UTC fields; four digits for the years 0 to 9999 and a sign with six
  digits otherwise; a \<^verbatim>\<open>RangeError\<close> on an invalid date.
\<close>

definition iso_date :: "int \<Rightarrow> string" where
  "iso_date t =
     (let y = YearFromTime t;
          ys = (if 0 \<le> y \<and> y \<le> 9999 then pad_left 4 (show_nat (nat y))
                else (if y < 0 then ''-'' else ''+'') @ pad_left 6 (show_nat (nat \<bar>y\<bar>)))
      in ys @ ''-'' @ pad_left 2 (show_nat (nat (MonthFromTime t + 1)))
            @ ''-'' @ pad_left 2 (show_nat (nat (DateFromTime t))))"

definition iso_time :: "int \<Rightarrow> string" where
  "iso_time t =
     pad_left 2 (show_nat (nat (HourFromTime t)))
     @ '':'' @ pad_left 2 (show_nat (nat (MinFromTime t)))
     @ '':'' @ pad_left 2 (show_nat (nat (SecFromTime t)))
     @ ''.'' @ pad_left 3 (show_nat (nat (msFromTime t)))"

definition toISOString :: "js_date \<Rightarrow> js_error + string" where
  "toISOString d =
     (case d of
        None \<Rightarrow> Inl RangeError
      | Some t \<Rightarrow> Inr (iso_date t @ ''T'' @ iso_time t @ ''Z''))"

subsection \<open>\<^verbatim>\<open>normalizeDate\<close> (lines 217-292)\<close>

text \<open>The values \<^verbatim>\<open>raw\<close> can take: \<^verbatim>\<open>ep.date\<close> is a string or \<^verbatim>\<open>null\<close>.\<close>

datatype jsval = JUndefined | JNull | JBool bool | JNumber int | JString string

fun truthy :: "jsval \<Rightarrow> bool" where
  "truthy JUndefined = False"
| "truthy JNull = False"
| "truthy (JBool b) = b"
| "truthy (JNumber n) = (n \<noteq> 0)"
| "truthy (JString s) = (s \<noteq> [])"

fun typeof :: "jsval \<Rightarrow> string" where
  "typeof JUndefined = ''undefined''"
| "typeof JNull = ''object''"
| "typeof (JBool b) = ''boolean''"
| "typeof (JNumber n) = ''number''"
| "typeof (JString s) = ''string''"

record normalized =
  full :: jsval
  iso :: "string option"

definition months :: "string \<Rightarrow> int option" where
  "months = map_of [(''JAN'', 0), (''FEB'', 1), (''MAR'', 2), (''APR'', 3), (''MAY'', 4),
                    (''JUN'', 5), (''JUL'', 6), (''AUG'', 7), (''SEP'', 8), (''OCT'', 9),
                    (''NOV'', 10), (''DEC'', 11)]"

text \<open>\<^verbatim>\<open>raw.replace(/,/g, '').trim().toUpperCase()\<close> (line 225).\<close>

definition strip_commas :: "string \<Rightarrow> string" where
  "strip_commas s = filter (\<lambda>c. c \<noteq> CHR '','') s"

definition clean :: "string \<Rightarrow> string" where
  "clean raw = toUpperCase (js_trim (strip_commas raw))"

datatype time_unit = SECOND | MINUTE | HOUR | DAY | WEEK | MONTH | YEAR

definition unit_words :: "(string \<times> time_unit) list" where
  "unit_words = [(''SECOND'', SECOND), (''MINUTE'', MINUTE), (''HOUR'', HOUR), (''DAY'', DAY),
                 (''WEEK'', WEEK), (''MONTH'', MONTH), (''YEAR'', YEAR)]"

text \<open>
  The alternation of the regular expression of line 228: the first word that the string
  starts with, and the rest of the string. No word is a prefix of another, so the first
  match is the only one.
\<close>

fun match_unit :: "(string \<times> time_unit) list \<Rightarrow> string \<Rightarrow> (time_unit \<times> string) option" where
  "match_unit [] s = None"
| "match_unit ((w, u) # ws) s =
     (if take (length w) s = w then Some (u, drop (length w) s) else match_unit ws s)"

text \<open>
  \<^verbatim>\<open>s.match(/^(\d+)\s+(SECOND|MINUTE|HOUR|DAY|WEEK|MONTH|YEAR)S?\s+AGO$/i)\<close> with the two
  groups read as line 230 and 231 do: digits, white space, a unit word, an optional
  \<^verbatim>\<open>S\<close>, white space, \<^verbatim>\<open>AGO\<close>, and the end. \<open>s\<close> is in upper case already.
\<close>

definition relativeMatch :: "string \<Rightarrow> (int \<times> time_unit) option" where
  "relativeMatch s =
     (let ds = takeWhile is_digit s; r1 = dropWhile is_digit s
      in if ds = [] then None
         else let r2 = dropWhile is_space r1
              in if r2 = r1 then None
                 else case match_unit unit_words r2 of
                        None \<Rightarrow> None
                      | Some (u, r3) \<Rightarrow>
                          let r4 = (case r3 of c # cs \<Rightarrow> if c = CHR ''S'' then cs else r3
                                             | [] \<Rightarrow> r3);
                              r5 = dropWhile is_space r4
                          in if r5 = r4 then None
                             else if r5 = ''AGO'' then Some (parseInt ds, u) else None)"

text \<open>The \<^verbatim>\<open>switch\<close> of lines 235-243 on the date \<^verbatim>\<open>now\<close>.\<close>

definition subtract_unit :: "int \<Rightarrow> time_unit \<Rightarrow> int \<Rightarrow> int \<Rightarrow> js_date" where
  "subtract_unit tz u amount now =
     (case u of
        SECOND \<Rightarrow> setSeconds tz now (getSeconds tz now - amount)
      | MINUTE \<Rightarrow> setMinutes tz now (getMinutes tz now - amount)
      | HOUR \<Rightarrow> setHours tz now (getHours tz now - amount)
      | DAY \<Rightarrow> setDate tz now (getDate tz now - amount)
      | WEEK \<Rightarrow> setDate tz now (getDate tz now - amount * 7)
      | MONTH \<Rightarrow> setMonth tz now (getMonth tz now - amount)
      | YEAR \<Rightarrow> setFullYear tz now (getFullYear tz now - amount))"

text \<open>\<^verbatim>\<open>s.split(/\s+/)\<close> (line 251).\<close>

function split_ws :: "string \<Rightarrow> string list" where
  "split_ws s =
     (let tok = takeWhile (\<lambda>c. \<not> is_space c) s;
          rest = dropWhile (\<lambda>c. \<not> is_space c) s
      in if rest = [] then [tok] else tok # split_ws (dropWhile is_space rest))"
  by pat_completeness auto
termination
proof (relation "measure length")
  show "wf (measure length)" by simp
next
  fix s tok rest :: string
  assume r: "rest = dropWhile (\<lambda>c. \<not> is_space c) s" and ne: "rest \<noteq> []"
  from ne have "length (dropWhile is_space rest) < length rest"
    by (cases rest)
       (use r ne hd_dropWhile[of "\<lambda>c. \<not> is_space c" s]
         in \<open>auto simp: less_Suc_eq_le length_dropWhile_le\<close>)
  moreover have "length rest \<le> length s"
    using r by (simp add: length_dropWhile_le)
  ultimately show "(dropWhile is_space rest, s) \<in> measure length" by simp
qed

declare split_ws.simps [simp del]

text \<open>\<^verbatim>\<open>/^\d{1,2}$/\<close> and \<^verbatim>\<open>/^\d{4}$/\<close>.\<close>

definition is_day_token :: "string \<Rightarrow> bool" where
  "is_day_token p = ((length p = 1 \<or> length p = 2) \<and> list_all is_digit p)"

definition is_year_token :: "string \<Rightarrow> bool" where
  "is_year_token p = (length p = 4 \<and> list_all is_digit p)"

text \<open>
  Lines 252-268: \<^verbatim>\<open>day\<close>, \<^verbatim>\<open>month\<close> and \<^verbatim>\<open>year\<close> after the two patterns, \<open>None\<close> for
  \<^verbatim>\<open>null\<close>.
\<close>

definition parse_parts :: "string list \<Rightarrow> int option \<times> int option \<times> int option" where
  "parse_parts parts =
     (if length parts \<ge> 2 \<and> is_day_token (parts ! 0)
      then (Some (parseInt (parts ! 0)),
            months (take 3 (parts ! 1)),
            if length parts \<ge> 3 \<and> is_year_token (parts ! 2)
            then Some (parseInt (parts ! 2)) else None)
      else if length parts \<ge> 2 \<and> is_day_token (parts ! 1)
      then (Some (parseInt (parts ! 1)),
            months (take 3 (parts ! 0)),
            if length parts \<ge> 3 \<and> is_year_token (parts ! 2)
            then Some (parseInt (parts ! 2)) else None)
      else (None, None, None))"

text \<open>
  Lines 270-283: the date object, \<open>None\<close> for \<^verbatim>\<open>null\<close>. \<^verbatim>\<open>year || now.getFullYear()\<close> and
  \<^verbatim>\<open>!year\<close> take a year 0 as no year. \<^verbatim>\<open>Date.parse\<close> is the runtime's parser, whose
  grammar outside the ISO format is left to the implementation: it is the parameter
  \<open>date_parse\<close>, \<open>None\<close> for NaN.
\<close>

definition resolve_absolute ::
  "int \<Rightarrow> int \<Rightarrow> (string \<Rightarrow> int option) \<Rightarrow> string \<Rightarrow> js_date option" where
  "resolve_absolute tz now date_parse s =
     (case parse_parts (split_ws s) of
        (Some day, Some month, year) \<Rightarrow>
          let year_given = (case year of Some y \<Rightarrow> y \<noteq> 0 | None \<Rightarrow> False);
              candidateYear = (case year of
                                 Some y \<Rightarrow> if y \<noteq> 0 then y else getFullYear tz now
                               | None \<Rightarrow> getFullYear tz now);
              dateObj = new_Date tz candidateYear month day
          in if \<not> year_given \<and> (case dateObj of Some t \<Rightarrow> t > now | None \<Rightarrow> False)
             then Some (new_Date tz (candidateYear - 1) month day)
             else Some dateObj
      | _ \<Rightarrow>
          (case date_parse s of
             None \<Rightarrow> None
           | Some parsed \<Rightarrow> Some (TimeClip parsed)))"

text \<open>
  \<^verbatim>\<open>normalizeDate\<close>, with the two things it reads from its environment as parameters: the
  local zone \<open>tz\<close> and the value \<open>now\<close> of \<^verbatim>\<open>new Date()\<close>. \<open>Inl\<close> is an exception that
  leaves the function.
\<close>

definition normalizeDate ::
  "int \<Rightarrow> int \<Rightarrow> (string \<Rightarrow> int option) \<Rightarrow> jsval \<Rightarrow> js_error + normalized" where
  "normalizeDate tz now date_parse raw =
     (case raw of
        JString str \<Rightarrow>
          if \<not> truthy raw \<or> typeof raw \<noteq> ''string'' then Inr \<lparr>full = raw, iso = None\<rparr>
          else
            let s = clean str
            in (case relativeMatch s of
                  Some (amount, u) \<Rightarrow>
                    let shifted = subtract_unit tz u amount now;
                        fullS = toLocaleDateString tz shifted
                    in (case toISOString shifted of
                          Inl e \<Rightarrow> Inl e
                        | Inr isoS \<Rightarrow> Inr \<lparr>full = JString fullS, iso = Some (take 10 isoS)\<rparr>)
                | None \<Rightarrow>
                    (case resolve_absolute tz now date_parse s of
                       Some (Some t) \<Rightarrow>
                         (case toISOString (Some t) of
                            Inl e \<Rightarrow> Inl e
                          | Inr isoS \<Rightarrow>
                              Inr \<lparr>full = JString (toLocaleDateString tz (Some t)),
                                   iso = Some (take 10 isoS)\<rparr>)
                     | _ \<Rightarrow> Inr \<lparr>full = raw, iso = None\<rparr>))
      | _ \<Rightarrow> Inr \<lparr>full = raw, iso = None\<rparr>)"

subsection \<open>Notions used to state the properties\<close>

text \<open>
  The two closing lines of both branches (lines 245-247 and 289-291): the long date in the
  local zone and the first ten characters of the ISO string, which is in UTC and raises
  on an invalid date.
\<close>

definition format_date :: "int \<Rightarrow> js_date \<Rightarrow> js_error + normalized" where
  "format_date tz d =
     (case toISOString d of
        Inl e \<Rightarrow> Inl e
      | Inr isoS \<Rightarrow> Inr \<lparr>full = JString (toLocaleDateString tz d), iso = Some (take 10 isoS)\<rparr>)"

text \<open>The calendar date of an instant on the local clock and in UTC (months from 0).\<close>

definition local_date :: "int \<Rightarrow> int \<Rightarrow> int \<times> int \<times> int" where
  "local_date tz t = (getFullYear tz t, getMonth tz t, getDate tz t)"


text \<open>The offsets of the time zones in use: from UTC-12:00 to UTC+14:00.\<close>

definition valid_zone :: "int \<Rightarrow> bool" where
  "valid_zone tz = (- 720 \<le> tz \<and> tz \<le> 840)"

text \<open>
  The inputs on which \<^verbatim>\<open>normalizeDate\<close> calls \<^verbatim>\<open>new Date()\<close>: the relative form
  (line 232), and an absolute form with a day and a month (line 272) whose year is missing
  or 0.
\<close>

definition reads_clock :: "jsval \<Rightarrow> bool" where
  "reads_clock raw =
     (case raw of
        JString str \<Rightarrow>
          str \<noteq> [] \<and>
          (relativeMatch (clean str) \<noteq> None \<or>
           (case parse_parts (split_ws (clean str)) of
              (Some day, Some month, year) \<Rightarrow>
                (case year of Some y \<Rightarrow> y = 0 | None \<Rightarrow> True)
            | _ \<Rightarrow> False))
      | _ \<Rightarrow> False)"

text \<open>
  The titles of all the rows the loop has scanned in its first \<open>n\<close> iterations, scan after
  scan, and the relation the loop keeps between them and its records.
\<close>

definition scanned_titles :: "(nat \<Rightarrow> row list) \<Rightarrow> nat \<Rightarrow> string list" where
  "scanned_titles getRows n = concat (map (\<lambda>i. row_titles (getRows i)) [0..<n])"

definition titles_inv :: "nat \<Rightarrow> (nat \<Rightarrow> row list) \<Rightarrow> collector_state \<Rightarrow> bool" where
  "titles_inv limit getRows st =
     (map title (results st) = take limit (remdups_adj (scanned_titles getRows (iterations st))))"


subsection \<open>Inputs used in the examples\<close>

text \<open>A list of three rows with three titles, which never changes.\<close>

definition abc_rows :: "row list" where
  "abc_rows = [Row (Some ''a'') None None None, Row (Some ''b'') None None None,
               Row (Some ''c'') None None None]"

definition abc_source :: "nat \<Rightarrow> row list" where
  "abc_source i = abc_rows"

text \<open>A list of three rows, the first two with one title, which never changes.\<close>

definition aab_rows :: "row list" where
  "aab_rows = [Row (Some ''a'') None None None, Row (Some ''a'') None None None,
               Row (Some ''b'') None None None]"

definition aab_source :: "nat \<Rightarrow> row list" where
  "aab_source i = aab_rows"

text \<open>A list of one row, which never changes.\<close>

definition one_row_source :: "nat \<Rightarrow> row list" where
  "one_row_source i = [Row (Some ''a'') None None None]"

text \<open>A \<^verbatim>\<open>Date.parse\<close> that accepts nothing.\<close>

definition no_date_parse :: "string \<Rightarrow> int option" where
  "no_date_parse s = None"

text \<open>2024-01-10T00:00Z and 2024-01-11T00:00Z.\<close>

definition jan10_2024 :: int where
  "jan10_2024 = 1704844800000"

definition jan11_2024 :: int where
  "jan11_2024 = 1704931200000"

section \<open>Properties\<close>

subsection \<open>\<^verbatim>\<open>normalizeDate\<close> by branch\<close>

lemma resolve_absolute_with_year:
  assumes "parse_parts (split_ws s) = (Some d, Some m, Some y)" and "y \<noteq> 0"
  shows "resolve_absolute tz now dp s = Some (new_Date tz y m d)"
  using assms by (simp add: resolve_absolute_def)

subsection \<open>The collector: what a scan appends\<close>

lemma push_row_titles:
  "map title (push_row r res) =
     (case row_title r of
        None \<Rightarrow> map title res
      | Some t \<Rightarrow> if res \<noteq> [] \<and> title (last res) = t then map title res
                  else map title res @ [t])"
  by (cases r) (auto simp: push_row_def row_title_def Let_def split: option.splits)

lemma push_row_cases:
  "push_row r res = res \<or> (\<exists>e. push_row r res = res @ [e] \<and> row_title r = Some (title e)
     \<and> \<not> (res \<noteq> [] \<and> title (last res) = title e))"
  by (cases r) (auto simp: push_row_def row_title_def Let_def split: option.splits)

lemma length_push_row: "length (push_row r res) \<le> Suc (length res)"
  using push_row_cases[of r res] by auto

lemma distinct_adj_push_row:
  assumes "distinct_adj (map title res)"
  shows "distinct_adj (map title (push_row r res))"
proof (cases "row_title r")
  case None
  then show ?thesis using assms by (simp add: push_row_titles)
next
  case (Some t)
  then show ?thesis
    using assms by (auto simp: push_row_titles distinct_adj_append_iff last_map)
qed

lemma distinct_adj_extract_rows:
  "distinct_adj (map title res) \<Longrightarrow> distinct_adj (map title (extract_rows limit rows res))"
  by (induction rows arbitrary: res) (simp_all add: distinct_adj_push_row)

lemma length_extract_rows:
  "length res \<le> limit \<Longrightarrow> length (extract_rows limit rows res) \<le> limit"
proof (induction rows arbitrary: res)
  case Nil
  then show ?case by simp
next
  case (Cons r rows)
  show ?case
  proof (cases "limit \<le> length res")
    case True
    then show ?thesis using Cons.prems by simp
  next
    case False
    then have "length (push_row r res) \<le> limit"
      using length_push_row[of r res] by simp
    then show ?thesis using False Cons.IH by simp
  qed
qed

lemma results_loop_body:
  "results (loop_body limit getRows st)
     = extract_rows limit (getRows (iterations st)) (results st)"
  by (simp add: loop_body_def Let_def)

lemma distinct_adj_collect_loop_aux:
  assumes "collect_loop limit getRows st = Some st'"
  shows "distinct_adj (map title (results st)) \<longrightarrow> distinct_adj (map title (results st'))"
proof (rule collect_loop.raw_induct
    [where P = "\<lambda>l g s y. distinct_adj (map title (results s))
                           \<longrightarrow> distinct_adj (map title (results y))", OF _ assms],
    goal_cases)
  case (1 loop limit getRows st st')
  note IH = 1(1) and eq = 1(2)
  let ?n = "loop_body limit getRows st"
  show ?case
  proof
    assume d0: "distinct_adj (map title (results st))"
    then have d: "distinct_adj (map title (results ?n))"
      by (simp add: results_loop_body distinct_adj_extract_rows)
    show "distinct_adj (map title (results st'))"
    proof (cases "length (results st) < limit \<and> stableAttempts st < maxStableAttempts")
      case False
      with eq have "st' = st" by (simp del: de_Morgan_conj)
      then show ?thesis using d0 by simp
    next
      case True
      show ?thesis
      proof (cases "limit \<le> length (results ?n)")
        case True
        with eq \<open>length (results st) < limit \<and> stableAttempts st < maxStableAttempts\<close>
        have "st' = ?n" by (simp add: Let_def)
        then show ?thesis using d by simp
      next
        case False
        with eq True have "loop limit getRows ?n = Some st'" by (simp add: Let_def)
        then show ?thesis using IH d by blast
      qed
    qed
  qed
qed

lemma distinct_adj_collect_loop:
  assumes "collect_loop limit getRows st = Some st'"
    and "distinct_adj (map title (results st))"
  shows "distinct_adj (map title (results st'))"
  using distinct_adj_collect_loop_aux[OF assms(1)] assms(2) by simp

lemma distinct_adj_take: "distinct_adj xs \<Longrightarrow> distinct_adj (take n xs)"
  using distinct_adj_appendD1[of "take n xs" "drop n xs"] by simp

lemma collector_distinct_adj:
  assumes "collector limit getRows = Some eps"
  shows "distinct_adj (map title eps)"
proof -
  from assms obtain st where st: "collect_loop limit getRows initial_state = Some st"
    and eps: "eps = take limit (results st)"
    by (auto simp: collector_def)
  have "distinct_adj (map title (results st))"
    by (rule distinct_adj_collect_loop[OF st]) (simp add: initial_state_def)
  then show ?thesis unfolding eps by (simp add: take_map[symmetric] distinct_adj_take)
qed

lemma remdups_adj_prefix:
  assumes "distinct_adj xs"
  shows "take (length xs) (remdups_adj (xs @ ys)) = xs"
proof (cases "xs = []")
  case True
  then show ?thesis by simp
next
  case False
  have "remdups_adj xs = xs" using assms by (simp add: distinct_adj_altdef)
  then show ?thesis using remdups_adj_append''[OF False, of ys] by simp
qed

lemma remdups_adj_repeat_last:
  assumes "xs \<noteq> []" and "last xs = t"
  shows "remdups_adj (xs @ t # ts) = remdups_adj (xs @ ts)"
proof -
  from assms obtain ys where xs: "xs = ys @ [t]"
    by (metis append_butlast_last_id)
  show ?thesis
  proof (cases ts)
    case Nil
    then show ?thesis using remdups_adj_append_two[of ys t t] by (simp add: xs)
  next
    case (Cons u us)
    have "remdups_adj (ys @ [t] @ t # u # us)
            = remdups_adj (ys @ [t]) @ tl (remdups_adj (t # t # u # us))"
      using remdups_adj_append[of ys t "t # u # us"] by simp
    also have "\<dots> = remdups_adj (ys @ [t]) @ tl (remdups_adj (t # u # us))" by simp
    also have "\<dots> = remdups_adj (ys @ t # u # us)"
      using remdups_adj_append[of ys t "u # us"] by simp
    finally show ?thesis by (simp add: xs Cons)
  qed
qed

lemma row_titles_Cons:
  "row_titles (r # rows) = (case row_title r of None \<Rightarrow> row_titles rows
                                              | Some t \<Rightarrow> t # row_titles rows)"
  by (cases "row_title r") (simp_all add: row_titles_def)

lemma extract_rows_titles:
  assumes "distinct_adj (map title res)" and "length res \<le> limit"
  shows "map title (extract_rows limit rows res)
           = take limit (remdups_adj (map title res @ row_titles rows))"
  using assms
proof (induction rows arbitrary: res)
  case Nil
  then show ?case by (simp add: row_titles_def distinct_adj_altdef)
next
  case (Cons r rows)
  show ?case
  proof (cases "limit \<le> length res")
    case True
    then have "limit = length (map title res)" using Cons.prems by simp
    then show ?thesis
      using remdups_adj_prefix[OF Cons.prems(1), of "row_titles (r # rows)"] True by simp
  next
    case False
    have d: "distinct_adj (map title (push_row r res))"
      by (rule distinct_adj_push_row[OF Cons.prems(1)])
    have l: "length (push_row r res) \<le> limit"
      using length_push_row[of r res] False by simp
    have "remdups_adj (map title (push_row r res) @ row_titles rows)
            = remdups_adj (map title res @ row_titles (r # rows))"
    proof (cases "row_title r")
      case None
      then show ?thesis by (simp add: push_row_titles row_titles_Cons)
    next
      case (Some t)
      show ?thesis
      proof (cases "res \<noteq> [] \<and> title (last res) = t")
        case True
        then have "map title res \<noteq> []" "last (map title res) = t"
          by (simp_all add: last_map)
        from remdups_adj_repeat_last[OF this, of "row_titles rows"] show ?thesis
          using Some True by (simp add: push_row_titles row_titles_Cons)
      next
        case False
        then show ?thesis using Some by (auto simp: push_row_titles row_titles_Cons)
      qed
    qed
    then show ?thesis using False Cons.IH[OF d l] by simp
  qed
qed


lemma loop_body_no_growth:
  assumes "length (getRows (iterations st)) \<le> prevCount st"
  shows "prevCount (loop_body limit getRows st) = prevCount st"
    and "stableAttempts (loop_body limit getRows st) = Suc (stableAttempts st)"
    and "iterations (loop_body limit getRows st) = Suc (iterations st)"
  using assms by (simp_all add: loop_body_def Let_def)

lemma collect_loop_plateau:
  assumes "\<forall>i\<ge>iterations st0. length (getRows i) \<le> prevCount st0"
    and "maxStableAttempts - stableAttempts st0 = k"
  shows "\<exists>st. collect_loop limit getRows st0 = Some st \<and> iterations st \<le> iterations st0 + k"
  using assms
proof (induction k arbitrary: st0)
  case 0
  then have "\<not> stableAttempts st0 < maxStableAttempts" by simp
  then have "collect_loop limit getRows st0 = Some st0"
    by (subst collect_loop.simps) simp
  then show ?case by simp
next
  case (Suc k)
  let ?n = "loop_body limit getRows st0"
  have ng: "length (getRows (iterations st0)) \<le> prevCount st0"
    using Suc.prems(1) by simp
  note n = loop_body_no_growth[of getRows st0 limit, OF ng]
  show ?case
  proof (cases "length (results st0) < limit \<and> stableAttempts st0 < maxStableAttempts")
    case False
    then have "collect_loop limit getRows st0 = Some st0"
      by (subst collect_loop.simps) (simp del: de_Morgan_conj)
    then show ?thesis by simp
  next
    case True
    show ?thesis
    proof (cases "limit \<le> length (results ?n)")
      case True
      with \<open>length (results st0) < limit \<and> stableAttempts st0 < maxStableAttempts\<close>
      have "collect_loop limit getRows st0 = Some ?n"
        by (subst collect_loop.simps) (simp add: Let_def)
      then show ?thesis using n(3) by simp
    next
      case False
      with True have unf: "collect_loop limit getRows st0 = collect_loop limit getRows ?n"
        by (subst collect_loop.simps) (simp add: Let_def)
      have "\<forall>i\<ge>iterations ?n. length (getRows i) \<le> prevCount ?n"
        using Suc.prems(1) n by simp
      moreover have "maxStableAttempts - stableAttempts ?n = k"
        using Suc.prems(2) n by simp
      ultimately obtain st where "collect_loop limit getRows ?n = Some st"
        and "iterations st \<le> iterations ?n + k"
        using Suc.IH by blast
      then show ?thesis using unf n(3) by auto
    qed
  qed
qed

lemma collect_loop_never_grows:
  assumes "\<forall>i. length (getRows i) \<le> length (getRows 0)"
  shows "\<exists>st. collect_loop limit getRows initial_state = Some st
              \<and> iterations st \<le> maxStableAttempts + 1
              \<and> (getRows 0 = [] \<longrightarrow> iterations st \<le> maxStableAttempts)"
proof (cases "getRows 0 = []")
  case True
  then have "\<forall>i\<ge>iterations initial_state. length (getRows i) \<le> prevCount initial_state"
    using assms by (simp add: initial_state_def)
  from collect_loop_plateau[OF this, of maxStableAttempts limit]
  show ?thesis by (auto simp: initial_state_def)
next
  case False
  let ?n = "loop_body limit getRows initial_state"
  have n: "prevCount ?n = length (getRows 0)" "stableAttempts ?n = 0" "iterations ?n = 1"
    using False by (simp_all add: loop_body_def initial_state_def Let_def)
  show ?thesis
  proof (cases "0 < limit")
    case False
    then have "collect_loop limit getRows initial_state = Some initial_state"
      by (subst collect_loop.simps) simp
    then show ?thesis by (simp add: initial_state_def)
  next
    case True
    show ?thesis
    proof (cases "limit \<le> length (results ?n)")
      case True
      with \<open>0 < limit\<close> have "collect_loop limit getRows initial_state = Some ?n"
        by (subst collect_loop.simps)
           (simp add: Let_def initial_state_def maxStableAttempts_def)
      then show ?thesis using n \<open>getRows 0 \<noteq> []\<close> by simp
    next
      case False
      with True have unf:
        "collect_loop limit getRows initial_state = collect_loop limit getRows ?n"
        by (subst collect_loop.simps)
           (simp add: Let_def initial_state_def maxStableAttempts_def)
      have "\<forall>i\<ge>iterations ?n. length (getRows i) \<le> prevCount ?n"
        using assms n by simp
      from collect_loop_plateau[OF this, of maxStableAttempts limit]
      show ?thesis using unf n \<open>getRows 0 \<noteq> []\<close> by auto
    qed
  qed
qed

lemma collector_length_le:
  assumes "collector limit getRows = Some eps"
  shows "length eps \<le> limit"
  using assms by (auto simp: collector_def)

text \<open>
  What the collector returns, for every row source: the titles of all the scans the loop
  made, one after the other, with runs of equal adjacent titles reduced to one, cut at the
  limit. A row that is still in the list at the next scan is scanned, and appended, again.
\<close>

lemma scanned_titles_Suc:
  "scanned_titles getRows (Suc n) = scanned_titles getRows n @ row_titles (getRows n)"
  by (simp add: scanned_titles_def)

lemma remdups_adj_remdups_adj_append:
  "remdups_adj (remdups_adj xs @ ys) = remdups_adj (xs @ ys)"
proof (cases "xs = []")
  case True
  then show ?thesis by simp
next
  case False
  then have "remdups_adj xs \<noteq> []" by simp
  moreover have "remdups_adj (remdups_adj xs) = remdups_adj xs"
    using distinct_adj_remdups_adj[of xs] by (simp only: distinct_adj_altdef)
  ultimately show ?thesis
    using remdups_adj_append''[of "remdups_adj xs" ys] remdups_adj_append''[OF False, of ys]
    by simp
qed

lemma take_all_if_short: "length (take n xs) < n \<Longrightarrow> take n xs = xs"
  by (cases "length xs \<le> n") auto

lemma titles_inv_loop_body:
  assumes inv: "titles_inv limit getRows st" and lt: "length (results st) < limit"
  shows "titles_inv limit getRows (loop_body limit getRows st)"
proof -
  let ?A = "scanned_titles getRows (iterations st)"
  have "length (take limit (remdups_adj ?A)) < limit"
    using inv lt unfolding titles_inv_def by (metis length_map)
  then have e: "map title (results st) = remdups_adj ?A"
    using inv take_all_if_short unfolding titles_inv_def by metis
  then have d: "distinct_adj (map title (results st))" by simp
  have "map title (extract_rows limit (getRows (iterations st)) (results st))
          = take limit (remdups_adj (remdups_adj ?A @ row_titles (getRows (iterations st))))"
    using extract_rows_titles[OF d, of limit "getRows (iterations st)"] lt e by simp
  then show ?thesis
    by (simp add: titles_inv_def results_loop_body remdups_adj_remdups_adj_append
        scanned_titles_Suc loop_body_def Let_def)
qed

lemma titles_inv_collect_loop:
  assumes "collect_loop limit getRows st = Some st'"
  shows "titles_inv limit getRows st \<longrightarrow> titles_inv limit getRows st'"
proof (rule collect_loop.raw_induct
    [where P = "\<lambda>l g s y. titles_inv l g s \<longrightarrow> titles_inv l g y", OF _ assms],
    goal_cases)
  case (1 loop limit getRows st st')
  note IH = 1(1) and eq = 1(2)
  let ?n = "loop_body limit getRows st"
  show ?case
  proof
    assume i0: "titles_inv limit getRows st"
    show "titles_inv limit getRows st'"
    proof (cases "length (results st) < limit \<and> stableAttempts st < maxStableAttempts")
      case False
      with eq have "st' = st" by (simp del: de_Morgan_conj)
      then show ?thesis using i0 by simp
    next
      case True
      then have i: "titles_inv limit getRows ?n"
        using titles_inv_loop_body[OF i0] by simp
      show ?thesis
      proof (cases "limit \<le> length (results ?n)")
        case True
        with eq \<open>length (results st) < limit \<and> stableAttempts st < maxStableAttempts\<close>
        have "st' = ?n" by (simp add: Let_def)
        then show ?thesis using i by simp
      next
        case False
        with eq True have "loop limit getRows ?n = Some st'" by (simp add: Let_def)
        then show ?thesis using IH i by blast
      qed
    qed
  qed
qed

lemma collector_titles:
  assumes "collect_loop limit getRows initial_state = Some st"
  shows "collector limit getRows = Some (take limit (results st))"
    and "map title (take limit (results st))
           = take limit (remdups_adj (scanned_titles getRows (iterations st)))"
proof -
  show "collector limit getRows = Some (take limit (results st))"
    using assms by (simp add: collector_def)
  have "titles_inv limit getRows initial_state"
    by (simp add: titles_inv_def initial_state_def scanned_titles_def)
  then have "titles_inv limit getRows st"
    using titles_inv_collect_loop[OF assms] by simp
  then have "map title (results st)
           = take limit (remdups_adj (scanned_titles getRows (iterations st)))"
    by (simp add: titles_inv_def)
  moreover have "map title (take limit (results st)) = take limit (map title (results st))"
    by (simp add: take_map)
  ultimately show "map title (take limit (results st))
           = take limit (remdups_adj (scanned_titles getRows (iterations st)))"
    by simp
qed

text \<open>
  The loop ends on every row source whose row count is bounded, and the result is never
  longer than the limit.
\<close>

lemma prevCount_loop_body:
  assumes "\<forall>i. length (getRows i) \<le> B" and "prevCount st \<le> B"
  shows "prevCount (loop_body limit getRows st) \<le> B"
  using assms by (simp add: loop_body_def Let_def)

lemma loop_body_measure:
  assumes "\<forall>i. length (getRows i) \<le> B" and "prevCount st \<le> B"
    and "stableAttempts st < maxStableAttempts"
  shows "(B - prevCount (loop_body limit getRows st)) * 13
           + (maxStableAttempts - stableAttempts (loop_body limit getRows st))
         < (B - prevCount st) * 13 + (maxStableAttempts - stableAttempts st)"
proof (cases "prevCount st < length (getRows (iterations st))")
  case True
  let ?c = "length (getRows (iterations st))"
  have "?c \<le> B" using assms(1) by simp
  then have "(B - ?c) * 13 + 13 \<le> (B - prevCount st) * 13" using True by simp
  then show ?thesis using True by (simp add: loop_body_def Let_def maxStableAttempts_def)
next
  case False
  then show ?thesis using assms(3) by (simp add: loop_body_def Let_def)
qed

lemma collect_loop_bounded_aux:
  assumes "\<forall>i. length (getRows i) \<le> B"
  shows "prevCount st \<le> B \<Longrightarrow>
           (B - prevCount st) * 13 + (maxStableAttempts - stableAttempts st) = n \<Longrightarrow>
           \<exists>st'. collect_loop limit getRows st = Some st'"
proof (induction n arbitrary: st rule: less_induct)
  case (less n)
  let ?n = "loop_body limit getRows st"
  show ?case
  proof (cases "length (results st) < limit \<and> stableAttempts st < maxStableAttempts")
    case False
    then have "collect_loop limit getRows st = Some st"
      by (subst collect_loop.simps) (simp del: de_Morgan_conj)
    then show ?thesis by simp
  next
    case True
    show ?thesis
    proof (cases "limit \<le> length (results ?n)")
      case True
      with \<open>length (results st) < limit \<and> stableAttempts st < maxStableAttempts\<close>
      have "collect_loop limit getRows st = Some ?n"
        by (subst collect_loop.simps) (simp add: Let_def)
      then show ?thesis by simp
    next
      case False
      with True have unf: "collect_loop limit getRows st = collect_loop limit getRows ?n"
        by (subst collect_loop.simps) (simp add: Let_def)
      have "(B - prevCount ?n) * 13 + (maxStableAttempts - stableAttempts ?n) < n"
        using loop_body_measure[OF assms less.prems(1), of limit] True less.prems(2) by simp
      moreover have "prevCount ?n \<le> B"
        by (rule prevCount_loop_body[OF assms less.prems(1)])
      ultimately have "\<exists>st'. collect_loop limit getRows ?n = Some st'"
        using less.IH by blast
      then show ?thesis using unf by simp
    qed
  qed
qed

lemma collector_returns_on_bounded_source:
  assumes "\<forall>i. length (getRows i) \<le> B"
  shows "\<exists>eps. collector limit getRows = Some eps \<and> length eps \<le> limit"
proof -
  have "prevCount initial_state \<le> B" by (simp add: initial_state_def)
  from collect_loop_bounded_aux[OF assms this refl, of limit]
  obtain st where "collect_loop limit getRows initial_state = Some st" by blast
  then show ?thesis by (auto simp: collector_def)
qed
text \<open>
  C1. The claim, and the scenario of the specification with it: a list of three rows with
  three titles that never grows, and a limit of 50, give three records. The loop scans the
  whole list again in every iteration and compares a title with the last record only, so
  every scan after the first appends the three rows again (\<open>a\<close> differs from the last
  title \<open>c\<close>): after the 13 iterations that the plateau detector allows, the result has
  39 records, each episode 13 times (by \<open>collector_titles\<close>, in general, every scan
  is appended whole whenever its first title differs from the last record's).
\<close>

theorem C1_stable_rows_collected_again:
  "row_titles abc_rows = [''a'', ''b'', ''c'']
   \<and> map_option (map title) (collector 50 abc_source)
       = Some (concat (replicate 13 [''a'', ''b'', ''c'']))
   \<and> map_option length (collector 50 abc_source) = Some 39"
proof -
  have "row_titles abc_rows = [''a'', ''b'', ''c'']"
    by code_simp
  moreover have "map_option (map title) (collector 50 abc_source)
                   = Some (concat (replicate 13 [''a'', ''b'', ''c'']))"
    by code_simp
  moreover have "map_option length (collector 50 abc_source) = Some 39"
    by code_simp
  ultimately show ?thesis by simp
qed

theorem C1_stable_rows_collected_again_witness:
  "map_option length (collector 50 abc_source) = Some 39"
  using C1_stable_rows_collected_again by simp

text \<open>
  C2. The claim: in the collector's output a run of consecutive rows with equal titles
  yields exactly one record. A list of three rows titled \<open>a\<close>, \<open>a\<close>, \<open>b\<close> that never
  changes, with a limit of 50: one scan from no records yields \<open>a\<close>, \<open>b\<close>, the run
  reduced to one record, but the collector scans the list in each of its 13 iterations
  and compares a title with the last record only, so it returns 26 records, \<open>a\<close>, \<open>b\<close>
  thirteen times: the run of two rows yields thirteen records. For every source the
  output is the titles of all scans, one after the other, with runs of equal adjacent
  titles reduced to one and cut at the limit. The other parts of the claim hold of the
  collector: no two adjacent records of its output share a title (and there is an output
  whenever the row count of the source is bounded); a row with a title is dropped exactly
  when that title is the title of the last record appended, and appended otherwise;
  within one scan from no records a run of rows with one title yields one record, and
  equal titles that are not adjacent are all kept.
\<close>

theorem C2_run_collected_every_scan:
  "row_titles aab_rows = [''a'', ''a'', ''b'']
   \<and> map title (extract_rows 50 aab_rows []) = [''a'', ''b'']
   \<and> map_option (map title) (collector 50 aab_source)
       = Some (concat (replicate 13 [''a'', ''b'']))
   \<and> map_option length (collector 50 aab_source) = Some 26
   \<and> (collect_loop limit getRows initial_state = Some st \<longrightarrow>
        collector limit getRows = Some (take limit (results st))
        \<and> map title (take limit (results st))
            = take limit (remdups_adj (scanned_titles getRows (iterations st))))
   \<and> (collector limit getRows = Some eps \<longrightarrow> distinct_adj (map title eps))
   \<and> ((\<forall>i. length (getRows i) \<le> B) \<longrightarrow>
        (\<exists>eps. collector limit getRows = Some eps \<and> distinct_adj (map title eps)))
   \<and> (row_title r = Some t \<longrightarrow>
        (if res \<noteq> [] \<and> title (last res) = t then push_row r res = res
         else \<exists>e. push_row r res = res @ [e] \<and> title e = t))
   \<and> map title (extract_rows limit rows []) = take limit (remdups_adj (row_titles rows))
   \<and> (row_title r = Some t \<and> 0 < n \<and> 0 < limit \<longrightarrow>
        map title (extract_rows limit (replicate n r) []) = [t])"
proof (intro conjI impI)
  show "row_titles aab_rows = [''a'', ''a'', ''b'']"
    by code_simp
next
  show "map title (extract_rows 50 aab_rows []) = [''a'', ''b'']"
    by code_simp
next
  show "map_option (map title) (collector 50 aab_source)
          = Some (concat (replicate 13 [''a'', ''b'']))"
    by code_simp
next
  show "map_option length (collector 50 aab_source) = Some 26"
    by code_simp
next
  assume "collect_loop limit getRows initial_state = Some st"
  then show "collector limit getRows = Some (take limit (results st))"
    by (rule collector_titles(1))
next
  assume "collect_loop limit getRows initial_state = Some st"
  then show "map title (take limit (results st))
            = take limit (remdups_adj (scanned_titles getRows (iterations st)))"
    by (rule collector_titles(2))
next
  assume "collector limit getRows = Some eps"
  then show "distinct_adj (map title eps)" by (rule collector_distinct_adj)
next
  assume "\<forall>i. length (getRows i) \<le> B"
  then obtain eps where "collector limit getRows = Some eps"
    using collector_returns_on_bounded_source[of getRows B limit] by blast
  then show "\<exists>eps. collector limit getRows = Some eps \<and> distinct_adj (map title eps)"
    using collector_distinct_adj by blast
next
  assume t: "row_title r = Some t"
  show "if res \<noteq> [] \<and> title (last res) = t then push_row r res = res
        else \<exists>e. push_row r res = res @ [e] \<and> title e = t"
    using push_row_cases[of r res] push_row_titles[of r res] t by auto
next
  show "map title (extract_rows limit rows []) = take limit (remdups_adj (row_titles rows))"
    using extract_rows_titles[of "[]" limit rows] by simp
next
  assume a: "row_title r = Some t \<and> 0 < n \<and> 0 < limit"
  from a have "row_title r = Some t" by simp
  then have "row_titles (replicate n r) = replicate n t"
    by (induction n) (simp_all add: row_titles_def)
  then show "map title (extract_rows limit (replicate n r) []) = [t]"
    using extract_rows_titles[of "[]" limit "replicate n r"] a
    by (simp add: remdups_adj_replicate)
qed

theorem C2_run_collected_every_scan_witness:
  "map_option length (collector 50 aab_source) = Some 26
   \<and> (\<exists>eps. collector 5 aab_source = Some eps
          \<and> map title eps = [''a'', ''b'', ''a'', ''b'', ''a''] \<and> distinct_adj (map title eps))
   \<and> (\<exists>eps. collector 7 aab_source = Some eps \<and> distinct_adj (map title eps))
   \<and> map title (extract_rows 9 (abc_rows @ abc_rows) []) = [''a'', ''b'', ''c'', ''a'', ''b'', ''c'']
   \<and> map title (extract_rows 9 (replicate 4 (Row (Some ''a'') None None None)) []) = [''a'']"
proof -
  note inst5 = C2_run_collected_every_scan[where limit = 5 and getRows = aab_source]
  have Z: "map_option length (collector 50 aab_source) = Some 26"
    by (rule conjunct1[OF conjunct2[OF conjunct2[OF conjunct2[OF inst5]]]])
  obtain eps where e: "collector 5 aab_source = Some eps"
    and t: "map title eps = [''a'', ''b'', ''a'', ''b'', ''a'']"
  proof -
    have "map_option (map title) (collector 5 aab_source)
            = Some [''a'', ''b'', ''a'', ''b'', ''a'']"
      by code_simp
    then show ?thesis using that by (cases "collector 5 aab_source") auto
  qed
  have "collector 5 aab_source = Some eps \<longrightarrow> distinct_adj (map title eps)"
    by (rule conjunct1[OF conjunct2[OF conjunct2[OF conjunct2[OF conjunct2[OF conjunct2[OF
        inst5[where eps = eps]]]]]]])
  then have "distinct_adj (map title eps)"
    using e by (simp del: distinct_adj_map_iff)
  with e t have A: "\<exists>eps. collector 5 aab_source = Some eps
      \<and> map title eps = [''a'', ''b'', ''a'', ''b'', ''a''] \<and> distinct_adj (map title eps)"
    by (intro exI[of _ eps] conjI)
  have B: "map title (extract_rows 9 (abc_rows @ abc_rows) [])
                   = [''a'', ''b'', ''c'', ''a'', ''b'', ''c'']"
  proof -
    have "take 9 (remdups_adj (row_titles (abc_rows @ abc_rows)))
            = [''a'', ''b'', ''c'', ''a'', ''b'', ''c'']"
      by code_simp
    then show ?thesis
      using C2_run_collected_every_scan[where limit = 9 and rows = "abc_rows @ abc_rows"]
      by simp
  qed
  have C: "map title (extract_rows 9 (replicate 4 (Row (Some ''a'') None None None)) [])
                   = [''a'']"
  proof -
    have "row_title (Row (Some ''a'') None None None) = Some ''a''"
      by code_simp
    moreover have "0 < (4::nat) \<and> 0 < (9::nat)" by simp
    ultimately show ?thesis
      using C2_run_collected_every_scan[where limit = 9
          and r = "Row (Some ''a'') None None None" and t = "''a''" and n = 4]
      by blast
  qed
  have "\<forall>i. length (aab_source i) \<le> 3"
    by (simp add: aab_source_def aab_rows_def)
  then have A': "\<exists>eps. collector 7 aab_source = Some eps \<and> distinct_adj (map title eps)"
    using C2_run_collected_every_scan[where limit = 7 and getRows = aab_source and B = 3]
    by (simp only: simp_thms)
  show ?thesis by (intro conjI) (rule Z, rule A, rule A', rule B, rule C)
qed

text \<open>
  C3. A list of one row that never changes, with a limit of 50: the first iteration sees
  the row count grow from 0 to 1 and resets the counter, and twelve more iterations
  follow. The loop ends after 13 iterations, not within 12.
\<close>

theorem C3_thirteen_iterations:
  "map_option iterations (collect_loop 50 one_row_source initial_state) = Some 13
   \<and> \<not> 13 \<le> maxStableAttempts"
proof -
  have "map_option iterations (collect_loop 50 one_row_source initial_state) = Some 13"
    by code_simp
  then show ?thesis by (simp add: maxStableAttempts_def)
qed

text \<open>
  C3, amended. Whatever the limit, a row source that never grows beyond its initial row
  count makes the loop end within \<open>maxStableAttempts + 1\<close> iterations, and within
  \<open>maxStableAttempts\<close> when the list is empty at first. From any state of the loop after
  which no row count exceeds \<open>prevCount\<close> (no growth is observed any more), the loop ends
  within \<open>maxStableAttempts - stableAttempts\<close> further iterations: within
  \<open>maxStableAttempts\<close> after the last observed growth.
\<close>

theorem C3_plateau_termination:
  "((\<forall>i. length (getRows i) \<le> length (getRows 0)) \<longrightarrow>
      (\<exists>st. collect_loop limit getRows initial_state = Some st
            \<and> iterations st \<le> maxStableAttempts + 1
            \<and> (getRows 0 = [] \<longrightarrow> iterations st \<le> maxStableAttempts)))
   \<and> ((\<forall>i\<ge>iterations st0. length (getRows i) \<le> prevCount st0) \<longrightarrow>
      (\<exists>st. collect_loop limit getRows st0 = Some st
            \<and> iterations st \<le> iterations st0 + (maxStableAttempts - stableAttempts st0)))"
proof (intro conjI impI)
  assume "\<forall>i. length (getRows i) \<le> length (getRows 0)"
  then show "\<exists>st. collect_loop limit getRows initial_state = Some st
                  \<and> iterations st \<le> maxStableAttempts + 1
                  \<and> (getRows 0 = [] \<longrightarrow> iterations st \<le> maxStableAttempts)"
    by (rule collect_loop_never_grows)
next
  assume "\<forall>i\<ge>iterations st0. length (getRows i) \<le> prevCount st0"
  then show "\<exists>st. collect_loop limit getRows st0 = Some st
                  \<and> iterations st \<le> iterations st0 + (maxStableAttempts - stableAttempts st0)"
    by (rule collect_loop_plateau) simp
qed

theorem C3_plateau_termination_witness:
  "(\<exists>st. collect_loop 50 one_row_source initial_state = Some st
         \<and> iterations st \<le> maxStableAttempts + 1)
   \<and> (\<exists>st. collect_loop 50 one_row_source
               \<lparr>results = [], prevCount = 1, stableAttempts = 0, iterations = 1\<rparr> = Some st
         \<and> iterations st \<le> 1 + maxStableAttempts)"
  using C3_plateau_termination[of one_row_source 50
      "\<lparr>results = [], prevCount = 1, stableAttempts = 0, iterations = 1\<rparr>"]
  by (simp add: one_row_source_def)

subsection \<open>The calendar of time values\<close>

lemma div_bounds:
  fixes x :: int
  shows "4 * (x div 4) \<le> x" "x < 4 * (x div 4) + 4"
    "100 * (x div 100) \<le> x" "x < 100 * (x div 100) + 100"
    "400 * (x div 400) \<le> x" "x < 400 * (x div 400) + 400"
    "146097 * (x div 146097) \<le> x" "x < 146097 * (x div 146097) + 146097"
  by simp_all

lemma year_estimate_low:
  fixes d :: int
  shows "DayFromYear (1970 + (400 * d) div 146097 - 1) \<le> d"
proof -
  define q where "q = (400 * d) div 146097"
  define a where "a = q div 4"
  define b where "b = (q + 68) div 100"
  define c where "c = (q + 368) div 400"
  have 1: "146097 * q \<le> 400 * d" unfolding q_def by (rule div_bounds)
  have 2: "4 * a \<le> q" unfolding a_def by (rule div_bounds)
  have 3: "q + 68 < 100 * b + 100" unfolding b_def by (rule div_bounds)
  have 4: "400 * c \<le> q + 368" unfolding c_def by (rule div_bounds)
  have "DayFromYear (1970 + q - 1) = 365 * q + a + c - b - 365"
    by (simp add: DayFromYear_def a_def b_def c_def algebra_simps)
  moreover have "365 * q + a + c - b - 365 \<le> d"
    using 1 2 3 4 by linarith
  ultimately show ?thesis unfolding q_def by simp
qed

lemma year_estimate_high:
  fixes d :: int
  shows "d < DayFromYear (1970 + (400 * d) div 146097 + 2)"
proof -
  define q where "q = (400 * d) div 146097"
  define a where "a = (q + 3) div 4"
  define b where "b = (q + 71) div 100"
  define c where "c = (q + 371) div 400"
  have 1: "400 * d < 146097 * q + 146097" unfolding q_def by (rule div_bounds)
  have 2: "q + 3 < 4 * a + 4" unfolding a_def by (rule div_bounds)
  have 3: "100 * b \<le> q + 71" unfolding b_def by (rule div_bounds)
  have 4: "q + 371 < 400 * c + 400" unfolding c_def by (rule div_bounds)
  have "DayFromYear (1970 + q + 2) = 365 * q + a + c - b + 730"
    by (simp add: DayFromYear_def a_def b_def c_def algebra_simps)
  moreover have "d < 365 * q + a + c - b + 730"
    using 1 2 3 4 by linarith
  ultimately show ?thesis unfolding q_def by simp
qed


lemma year_from_day_bounds:
  "DayFromYear (year_from_day d) \<le> d \<and> d < DayFromYear (year_from_day d + 1)"
proof -
  define y where "y = 1970 + (400 * d) div 146097"
  have lo: "DayFromYear (y - 1) \<le> d" unfolding y_def by (rule year_estimate_low)
  have hi: "d < DayFromYear (y + 2)" unfolding y_def by (rule year_estimate_high)
  have yd: "year_from_day d =
      (if DayFromYear (y + 1) \<le> d then y + 1 else if DayFromYear y \<le> d then y else y - 1)"
    by (simp add: year_from_day_def Let_def y_def)
  show ?thesis
  proof (cases "DayFromYear (y + 1) \<le> d")
    case True
    then show ?thesis using hi yd by (simp add: add.commute add.left_commute)
  next
    case False
    note f1 = this
    show ?thesis
    proof (cases "DayFromYear y \<le> d")
      case True
      then show ?thesis using f1 yd by simp
    next
      case False
      then show ?thesis using f1 yd lo by simp
    qed
  qed
qed

lemma DayFromYear_step: "DayFromYear y + 365 \<le> DayFromYear (y + 1)"
proof -
  define a where "a = (y - 1969) div 4"
  define a' where "a' = (y + 1 - 1969) div 4"
  define b where "b = (y - 1901) div 100"
  define b' where "b' = (y + 1 - 1901) div 100"
  define c where "c = (y - 1601) div 400"
  define c' where "c' = (y + 1 - 1601) div 400"
  have "a \<le> a'" unfolding a_def a'_def by (rule zdiv_mono1) simp_all
  moreover have "c \<le> c'" unfolding c_def c'_def by (rule zdiv_mono1) simp_all
  moreover have "b' \<le> b \<or> (b' = b + 1 \<and> a' = a + 1)"
  proof (cases "(y + 1 - 1901) mod 100 = 0")
    case True
    then obtain k where k: "y + 1 - 1901 = 100 * k" by (metis mod_0_imp_dvd dvdE)
    have "y - 1901 = 100 * (k - 1) + 99" using k by simp
    then have "b = k - 1" unfolding b_def by simp
    moreover have "b' = k" unfolding b'_def using k by simp
    moreover have "y + 1 - 1969 = 4 * (25 * k - 17)" using k by simp
    then have "a' = 25 * k - 17" unfolding a'_def by simp
    moreover have "y - 1969 = 4 * (25 * k - 18) + 3" using k by simp
    then have "a = 25 * k - 18" unfolding a_def by simp
    ultimately show ?thesis by simp
  next
    case False
    have "y + 1 - 1901 = 100 * b' + (y + 1 - 1901) mod 100"
      unfolding b'_def by simp
    moreover have "0 < (y + 1 - 1901) mod 100"
      using False pos_mod_sign[of 100 "y + 1 - 1901"] by linarith
    ultimately have "100 * b' \<le> y - 1901" by linarith
    then have "b' \<le> b" unfolding b_def by (simp add: zdiv_mono1 div_bounds int_div_less_self zle_diff1_eq)
    then show ?thesis by simp
  qed
  ultimately have "a - b + c \<le> a' - b' + c'"
    by auto
  then show ?thesis
    by (simp add: DayFromYear_def a_def a'_def b_def b'_def c_def c'_def)
qed

text \<open>
  \<open>year_from_day\<close> is the year of ECMA-262: the one \<open>y\<close> with
  \<open>DayFromYear y \<le> d < DayFromYear (y + 1)\<close>.
\<close>

lemma DayFromYear_mono:
  assumes "a \<le> b"
  shows "DayFromYear a \<le> DayFromYear b"
  using assms
proof (induction b rule: int_ge_induct)
  case base
  show ?case by simp
next
  case (step i)
  then show ?case using DayFromYear_step[of i] by simp
qed

lemma year_from_day_unique:
  assumes "DayFromYear y \<le> d" and "d < DayFromYear (y + 1)"
  shows "year_from_day d = y"
proof (rule ccontr)
  assume ne: "year_from_day d \<noteq> y"
  let ?y = "year_from_day d"
  note b = year_from_day_bounds[of d]
  show False
  proof (cases "?y < y")
    case True
    then have "DayFromYear (?y + 1) \<le> DayFromYear y" by (intro DayFromYear_mono) simp
    then show False using assms(1) b by simp
  next
    case False
    with ne have "DayFromYear (y + 1) \<le> DayFromYear ?y" by (intro DayFromYear_mono) simp
    then show False using assms(2) b by simp
  qed
qed

subsection \<open>Setting a field of a date back\<close>

lemma MonthFromTime_range: "0 \<le> MonthFromTime t \<and> MonthFromTime t \<le> 11"
  by (simp add: MonthFromTime_def Let_def)

lemma MakeDay_fields: "MakeDay (YearFromTime t) (MonthFromTime t) (DateFromTime t) = Day t"
proof -
  have "MonthFromTime t div 12 = 0" "MonthFromTime t mod 12 = MonthFromTime t"
    using MonthFromTime_range[of t] by simp_all
  then show ?thesis
    by (simp add: MakeDay_def Let_def DateFromTime_def DayWithinYear_def InLeapYear_def)
qed









subsection \<open>Formatting depends on the day only\<close>

lemma Day_of_day: "0 \<le> r \<Longrightarrow> r < msPerDay \<Longrightarrow> Day (d * msPerDay + r) = d"
  by (simp add: Day_def msPerDay_def div_pos_pos_trivial)

lemma Day_of_midnight: "Day (d * msPerDay) = d"
  using Day_of_day[of 0 d] by (simp add: msPerDay_def)

lemma date_fields_cong:
  assumes "Day t = Day t'"
  shows "YearFromTime t = YearFromTime t'" "MonthFromTime t = MonthFromTime t'"
    "DateFromTime t = DateFromTime t'"
  using assms
  by (simp_all add: YearFromTime_def MonthFromTime_def DateFromTime_def DayWithinYear_def
      InLeapYear_def)

lemma toLocaleDateString_day:
  assumes "Day (LocalTime tz t) = d"
  shows "toLocaleDateString tz (Some t) = toLocaleDateString 0 (Some (d * msPerDay))"
proof -
  have "Day (LocalTime tz t) = Day (LocalTime 0 (d * msPerDay))"
    using assms by (simp add: LocalTime_def Day_of_midnight)
  from date_fields_cong[OF this] show ?thesis
    by (simp add: toLocaleDateString_def Let_def)
qed

lemma iso_date_day:
  assumes "Day t = d"
  shows "iso_date t = iso_date (d * msPerDay)"
proof -
  have "Day t = Day (d * msPerDay)" using assms by (simp add: Day_of_midnight)
  from date_fields_cong[OF this] show ?thesis
    by (simp add: iso_date_def Let_def)
qed

lemma length_pad_left: "k \<le> length (pad_left k s)"
  by (simp add: pad_left_def)

lemma length_iso_date: "10 \<le> length (iso_date t)"
proof -
  define y where "y = YearFromTime t"
  define ys where "ys = (if 0 \<le> y \<and> y \<le> 9999 then pad_left 4 (show_nat (nat y))
                else (if y < 0 then ''-'' else ''+'') @ pad_left 6 (show_nat (nat \<bar>y\<bar>)))"
  define mm where "mm = pad_left 2 (show_nat (nat (MonthFromTime t + 1)))"
  define dd where "dd = pad_left 2 (show_nat (nat (DateFromTime t)))"
  have "4 \<le> length ys"
    using length_pad_left[of 4 "show_nat (nat y)"] length_pad_left[of 6 "show_nat (nat \<bar>y\<bar>)"]
    unfolding ys_def by (simp split: if_splits)
  moreover have "2 \<le> length mm" unfolding mm_def by (rule length_pad_left)
  moreover have "2 \<le> length dd" unfolding dd_def by (rule length_pad_left)
  moreover have "iso_date t = ys @ ''-'' @ mm @ ''-'' @ dd"
    unfolding iso_date_def Let_def ys_def mm_def dd_def y_def ..
  ultimately show ?thesis by simp
qed

lemma format_date_Some:
  "format_date tz (Some t)
     = Inr \<lparr>full = JString (toLocaleDateString tz (Some t)), iso = Some (take 10 (iso_date t))\<rparr>"
  using length_iso_date[of t] by (simp add: format_date_def toISOString_def)

lemma format_date_None: "format_date tz None = Inl RangeError"
  by (simp add: format_date_def toISOString_def)

lemma format_date_days:
  assumes "Day (LocalTime tz t) = dl" and "Day t = du"
  shows "format_date tz (Some t)
     = Inr \<lparr>full = JString (toLocaleDateString 0 (Some (dl * msPerDay))),
            iso = Some (take 10 (iso_date (du * msPerDay)))\<rparr>"
  by (simp add: format_date_Some toLocaleDateString_day[OF assms(1)] iso_date_day[OF assms(2)])

lemma relativeMatch_empty: "relativeMatch [] = None"
  by (simp add: relativeMatch_def)

lemma clean_empty: "clean [] = []"
  by (simp add: clean_def toUpperCase_def js_trim_def strip_commas_def)

lemma normalizeDate_relative:
  assumes "relativeMatch (clean str) = Some (n, u)"
  shows "normalizeDate tz now dp (JString str) = format_date tz (subtract_unit tz u n now)"
proof -
  have "str \<noteq> []" using assms relativeMatch_empty clean_empty by auto
  then show ?thesis using assms by (simp add: normalizeDate_def format_date_def Let_def)
qed

lemma normalizeDate_absolute_format:
  assumes "str \<noteq> []" and "relativeMatch (clean str) = None"
  shows "normalizeDate tz now dp (JString str) =
           (case resolve_absolute tz now dp (clean str) of
              Some (Some t) \<Rightarrow> format_date tz (Some t)
            | _ \<Rightarrow> Inr \<lparr>full = JString str, iso = None\<rparr>)"
  using assms by (simp add: normalizeDate_def format_date_def split: option.splits)

lemma normalizeDate_not_string:
  assumes "typeof raw \<noteq> ''string''"
  shows "normalizeDate tz now dp raw = Inr \<lparr>full = raw, iso = None\<rparr>"
  using assms by (cases raw) (simp_all add: normalizeDate_def)

subsection \<open>The relative form\<close>










lemma day_of_local_date:
  assumes "local_date tz t = (y, m, d)"
  shows "Day (LocalTime tz t) = MakeDay y m d"
  using assms MakeDay_fields[of "LocalTime tz t"]
  by (simp add: local_date_def getFullYear_def getMonth_def getDate_def)


lemma Day_bounds: "Day t * msPerDay \<le> t \<and> t < Day t * msPerDay + msPerDay"
proof -
  have "t = 86400000 * (t div 86400000) + t mod 86400000" by simp
  moreover have "0 \<le> t mod 86400000" "t mod 86400000 < 86400000"
    by simp_all
  ultimately have "(t div 86400000) * 86400000 \<le> t \<and> t < (t div 86400000) * 86400000 + 86400000"
    by linarith
  then show ?thesis by (simp add: Day_def msPerDay_def)
qed

lemma jan10_day: "MakeDay 2024 0 10 = 19732"
  by code_simp








subsection \<open>The absolute form: local midnight of a day\<close>

lemma new_Date_value:
  "new_Date tz year month day
     = TimeClip (MakeDay (if 0 \<le> year \<and> year \<le> 99 then 1900 + year else year) month day
                   * msPerDay - tz * msPerMinute)"
  by (simp add: new_Date_def MakeDate_def MakeTime_def UTC_def Let_def)

lemma LocalTime_local_midnight: "LocalTime tz (D * msPerDay - tz * msPerMinute) = D * msPerDay"
  by (simp add: LocalTime_def)

lemma Day_utc_of_local_midnight:
  assumes "valid_zone tz"
  shows "Day (D * msPerDay - tz * msPerMinute) = (if 0 < tz then D - 1 else D)"
proof (cases "0 < tz")
  case True
  define r where "r = msPerDay - tz * msPerMinute"
  have e: "D * msPerDay - tz * msPerMinute = (D - 1) * msPerDay + r"
    by (simp add: r_def algebra_simps)
  have "0 \<le> r" "r < msPerDay"
    using assms True by (simp_all add: r_def valid_zone_def msPerDay_def msPerMinute_def)
  then have "Day ((D - 1) * msPerDay + r) = D - 1" by (rule Day_of_day)
  then show ?thesis using True by (simp only: e if_True)
next
  case False
  define r where "r = - tz * msPerMinute"
  have e: "D * msPerDay - tz * msPerMinute = D * msPerDay + r"
    by (simp add: r_def)
  have "0 \<le> r" "r < msPerDay"
    using assms False by (simp_all add: r_def valid_zone_def msPerDay_def msPerMinute_def)
  then have "Day (D * msPerDay + r) = D" by (rule Day_of_day)
  then show ?thesis using False by (simp only: e if_False)
qed

lemma format_local_midnight:
  assumes "valid_zone tz"
  shows "format_date tz (Some (D * msPerDay - tz * msPerMinute))
     = Inr \<lparr>full = JString (toLocaleDateString 0 (Some (D * msPerDay))),
            iso = Some (take 10 (iso_date ((if 0 < tz then D - 1 else D) * msPerDay)))\<rparr>"
  by (rule format_date_days)
     (simp_all add: LocalTime_local_midnight Day_of_midnight Day_utc_of_local_midnight[OF assms])

lemma TimeClip_local_midnight:
  assumes "valid_zone tz" and "\<bar>D\<bar> \<le> 99999999"
  shows "TimeClip (D * msPerDay - tz * msPerMinute) = Some (D * msPerDay - tz * msPerMinute)"
proof -
  have "D * 86400000 - tz * 60000 \<le> 8640000000000000"
    "- 8640000000000000 \<le> D * 86400000 - tz * 60000"
    using assms unfolding valid_zone_def by linarith+
  then have "\<not> 8640000000000000 < \<bar>D * 86400000 - tz * 60000\<bar>"
    by linarith
  then show ?thesis by (simp add: TimeClip_def msPerDay_def msPerMinute_def)
qed

lemma feb31_clean: "clean ''31 FEB 2024'' = ''31 FEB 2024''"
  by code_simp

lemma feb31_not_relative: "relativeMatch ''31 FEB 2024'' = None"
  by code_simp

lemma feb31_parts: "parse_parts (split_ws ''31 FEB 2024'') = (Some 31, Some 1, Some 2024)"
  by code_simp

lemma feb31_day: "MakeDay 2024 1 31 = 19784"
  by code_simp

lemma mar2_full: "toLocaleDateString 0 (Some (19784 * msPerDay)) = ''2 March 2024''"
  by code_simp

lemma mar2_iso: "take 10 (iso_date (19784 * msPerDay)) = ''2024-03-02''"
  by code_simp

lemma mar1_iso: "take 10 (iso_date (19783 * msPerDay)) = ''2024-03-01''"
  by code_simp


text \<open>
  C10. \<^verbatim>\<open>"31 FEB 2024"\<close> matches the day-month-year pattern, and \<^verbatim>\<open>new Date(2024, 1, 31)\<close>
  carries the day beyond February into March: in every zone from UTC-12:00 to UTC+14:00
  the result is not the parse failure but \<^verbatim>\<open>full\<close> 2 March 2024, with an \<^verbatim>\<open>iso\<close> of
  2 March in the zones at or west of UTC and of 1 March east of it.
\<close>

theorem C10_day_overflow:
  "valid_zone tz \<longrightarrow>
     normalizeDate tz now dp (JString ''31 FEB 2024'')
       = Inr \<lparr>full = JString ''2 March 2024'',
              iso = Some (if 0 < tz then ''2024-03-01'' else ''2024-03-02'')\<rparr>
     \<and> normalizeDate tz now dp (JString ''31 FEB 2024'')
       \<noteq> Inr \<lparr>full = JString ''31 FEB 2024'', iso = None\<rparr>"
proof
  assume z: "valid_zone tz"
  have r: "resolve_absolute tz now dp ''31 FEB 2024'' = Some (new_Date tz 2024 1 31)"
    by (rule resolve_absolute_with_year[OF feb31_parts]) simp
  have n: "new_Date tz 2024 1 31 = Some (19784 * msPerDay - tz * msPerMinute)"
    using TimeClip_local_midnight[OF z, of 19784] by (simp add: new_Date_value feb31_day)
  have "normalizeDate tz now dp (JString ''31 FEB 2024'')
       = Inr \<lparr>full = JString ''2 March 2024'',
              iso = Some (if 0 < tz then ''2024-03-01'' else ''2024-03-02'')\<rparr>"
    by (simp add: normalizeDate_absolute_format feb31_clean feb31_not_relative r n
        format_local_midnight[OF z] mar2_full mar2_iso mar1_iso)
  then show "normalizeDate tz now dp (JString ''31 FEB 2024'')
       = Inr \<lparr>full = JString ''2 March 2024'',
              iso = Some (if 0 < tz then ''2024-03-01'' else ''2024-03-02'')\<rparr>
     \<and> normalizeDate tz now dp (JString ''31 FEB 2024'')
       \<noteq> Inr \<lparr>full = JString ''31 FEB 2024'', iso = None\<rparr>"
    by simp
qed

theorem C10_day_overflow_witness:
  "normalizeDate 0 jan10_2024 no_date_parse (JString ''31 FEB 2024'')
     = Inr \<lparr>full = JString ''2 March 2024'', iso = Some ''2024-03-02''\<rparr>
   \<and> normalizeDate 330 jan10_2024 no_date_parse (JString ''31 FEB 2024'')
     = Inr \<lparr>full = JString ''2 March 2024'', iso = Some ''2024-03-01''\<rparr>"
  using C10_day_overflow[of 0 jan10_2024 no_date_parse]
    C10_day_overflow[of 330 jan10_2024 no_date_parse]
  by (simp add: valid_zone_def)

subsection \<open>An absolute date with its year\<close>

lemma nov14_clean: "clean ''14 NOV 2024'' = ''14 NOV 2024''"
  by code_simp

lemma nov14_not_relative: "relativeMatch ''14 NOV 2024'' = None"
  by code_simp

lemma nov14_parts: "parse_parts (split_ws ''14 NOV 2024'') = (Some 14, Some 10, Some 2024)"
  by code_simp

lemma nov14_day: "MakeDay 2024 10 14 = 20041"
  by code_simp

lemma nov14_full: "toLocaleDateString 0 (Some (20041 * msPerDay)) = ''14 November 2024''"
  by code_simp

lemma nov14_iso: "take 10 (iso_date (20041 * msPerDay)) = ''2024-11-14''"
  "take 10 (iso_date (20040 * msPerDay)) = ''2024-11-13''"
  by code_simp+

text \<open>
  C4. \<^verbatim>\<open>normalize("14 NOV 2024")\<close> has the \<^verbatim>\<open>full\<close> form \<^verbatim>\<open>"14 November 2024"\<close> in every zone,
  whatever the clock says. Its \<^verbatim>\<open>iso\<close> is \<^verbatim>\<open>"2024-11-14"\<close> in the zones at or west of UTC
  only: the resolved instant is local midnight, which east of UTC is an hour of the day
  before in UTC, and \<^verbatim>\<open>iso\<close> is \<^verbatim>\<open>"2024-11-13"\<close> there, next to a \<^verbatim>\<open>full\<close> of 14 November.
  \<^verbatim>\<open>iso\<close> is not independent of the local time zone.
\<close>

theorem C4_iso_depends_on_zone:
  "valid_zone tz \<longrightarrow>
     normalizeDate tz now dp (JString ''14 NOV 2024'')
       = Inr \<lparr>full = JString ''14 November 2024'',
              iso = Some (if 0 < tz then ''2024-11-13'' else ''2024-11-14'')\<rparr>"
proof
  assume z: "valid_zone tz"
  have r: "resolve_absolute tz now dp ''14 NOV 2024'' = Some (new_Date tz 2024 10 14)"
    by (rule resolve_absolute_with_year[OF nov14_parts]) simp
  have n: "new_Date tz 2024 10 14 = Some (20041 * msPerDay - tz * msPerMinute)"
    using TimeClip_local_midnight[OF z, of 20041] by (simp add: new_Date_value nov14_day)
  show "normalizeDate tz now dp (JString ''14 NOV 2024'')
       = Inr \<lparr>full = JString ''14 November 2024'',
              iso = Some (if 0 < tz then ''2024-11-13'' else ''2024-11-14'')\<rparr>"
    by (simp add: normalizeDate_absolute_format nov14_clean nov14_not_relative r n
        format_local_midnight[OF z] nov14_full nov14_iso)
qed

theorem C4_iso_depends_on_zone_witness:
  "normalizeDate 0 jan10_2024 no_date_parse (JString ''14 NOV 2024'')
     = Inr \<lparr>full = JString ''14 November 2024'', iso = Some ''2024-11-14''\<rparr>
   \<and> normalizeDate 330 jan10_2024 no_date_parse (JString ''14 NOV 2024'')
     = Inr \<lparr>full = JString ''14 November 2024'', iso = Some ''2024-11-13''\<rparr>"
  using C4_iso_depends_on_zone[of 0 jan10_2024 no_date_parse]
    C4_iso_depends_on_zone[of 330 jan10_2024 no_date_parse]
  by (simp add: valid_zone_def)

subsection \<open>The absolute form without a year\<close>

lemma resolve_absolute_no_year:
  assumes "parse_parts (split_ws s) = (Some d, Some m, None)"
  shows "resolve_absolute tz now dp s =
           Some (if (case new_Date tz (getFullYear tz now) m d of
                       Some t \<Rightarrow> now < t | None \<Rightarrow> False)
                 then new_Date tz (getFullYear tz now - 1) m d
                 else new_Date tz (getFullYear tz now) m d)"
  using assms by (simp add: resolve_absolute_def Let_def)

lemma parse_parts_empty: "parse_parts (split_ws (clean [])) = (None, None, None)"
  by code_simp

lemma months_range: "months k = Some m \<Longrightarrow> 0 \<le> m \<and> m \<le> 11"
  by (auto simp: months_def split: if_splits)

lemma parse_parts_month:
  assumes "parse_parts parts = (dy, Some m, yr)"
  shows "0 \<le> m \<and> m \<le> 11"
  using assms months_range
  by (auto simp: parse_parts_def split: if_splits)

lemma month_start_le: "0 \<le> m \<Longrightarrow> m \<le> 11 \<Longrightarrow> month_start leap m \<le> 335"
  by (simp add: month_start_def Let_def)

lemma MakeDay_previous_year:
  assumes "0 \<le> m" "m \<le> 11" "d \<le> 31"
  shows "MakeDay (y - 1) m d \<le> DayFromYear y"
proof -
  have "m div 12 = 0" "m mod 12 = m" using assms by simp_all
  then have "MakeDay (y - 1) m d = DayFromYear (y - 1) + month_start (leap_year (y - 1)) m + d - 1"
    by (simp add: MakeDay_def Let_def)
  moreover have "month_start (leap_year (y - 1)) m \<le> 335"
    using assms by (simp add: month_start_le)
  moreover have "DayFromYear (y - 1) + 365 \<le> DayFromYear y"
    using DayFromYear_step[of "y - 1"] by simp
  ultimately show ?thesis using assms(3) by linarith
qed

lemma resolved_not_in_future:
  assumes p: "parse_parts (split_ws s) = (Some d, Some m, None)"
    and d: "d \<le> 31" and y: "1970 \<le> getFullYear tz now"
    and r: "resolve_absolute tz now dp s = Some (Some t)"
  shows "t \<le> now"
proof -
  let ?y = "getFullYear tz now"
  let ?c = "new_Date tz ?y m d"
  show ?thesis
  proof (cases "case ?c of Some t \<Rightarrow> now < t | None \<Rightarrow> False")
    case False
    then have "?c = Some t"
      using r by (simp add: resolve_absolute_no_year[OF p])
    then show ?thesis using False by simp
  next
    case True
    then have "new_Date tz (?y - 1) m d = Some t"
      using r by (simp add: resolve_absolute_no_year[OF p])
    then have t: "t = MakeDay (?y - 1) m d * msPerDay - tz * msPerMinute"
      using y by (simp add: new_Date_value TimeClip_def split: if_splits)
    have mr: "0 \<le> m \<and> m \<le> 11" by (rule parse_parts_month[OF p])
    have "MakeDay (?y - 1) m d \<le> DayFromYear ?y"
      using MakeDay_previous_year[of m d ?y] mr d by simp
    also have "\<dots> \<le> Day (LocalTime tz now)"
      using year_from_day_bounds[of "Day (LocalTime tz now)"]
      by (simp add: getFullYear_def YearFromTime_def)
    finally have "MakeDay (?y - 1) m d * msPerDay \<le> Day (LocalTime tz now) * msPerDay"
      by (simp add: msPerDay_def)
    also have "\<dots> \<le> LocalTime tz now" using Day_bounds[of "LocalTime tz now"] by simp
    finally show ?thesis unfolding t by (simp add: LocalTime_def)
  qed
qed

lemma dec15_clean: "clean ''15 DEC'' = ''15 DEC''"
  by code_simp

lemma dec15_not_relative: "relativeMatch ''15 DEC'' = None"
  by code_simp

lemma dec15_parts: "parse_parts (split_ws ''15 DEC'') = (Some 15, Some 11, None)"
  by code_simp

lemma dec15_days: "MakeDay 2024 11 15 = 20072" "MakeDay 2023 11 15 = 19706"
  by code_simp+

lemma dec15_full: "toLocaleDateString 0 (Some (19706 * msPerDay)) = ''15 December 2023''"
  "toLocaleDateString 0 (Some (20072 * msPerDay)) = ''15 December 2024''"
  by code_simp+

lemma dec15_iso: "take 10 (iso_date (19706 * msPerDay)) = ''2023-12-15''"
  "take 10 (iso_date (19705 * msPerDay)) = ''2023-12-14''"
  by code_simp+

lemma dec15_on_jan10:
  assumes z: "valid_zone tz" and l: "local_date tz now = (2024, 0, 10)"
  shows "normalizeDate tz now dp (JString ''15 DEC'')
           = Inr \<lparr>full = JString ''15 December 2023'',
                  iso = Some (if 0 < tz then ''2023-12-14'' else ''2023-12-15'')\<rparr>"
proof -
  have y: "getFullYear tz now = 2024" using l by (simp add: local_date_def)
  have dl: "Day (LocalTime tz now) = 19732"
    using day_of_local_date[OF l] by (simp add: jan10_day)
  have c: "new_Date tz 2024 11 15 = Some (20072 * msPerDay - tz * msPerMinute)"
    using TimeClip_local_midnight[OF z, of 20072] by (simp add: new_Date_value dec15_days)
  have p: "new_Date tz 2023 11 15 = Some (19706 * msPerDay - tz * msPerMinute)"
    using TimeClip_local_midnight[OF z, of 19706] by (simp add: new_Date_value dec15_days)
  have "LocalTime tz now < 20072 * msPerDay"
    using Day_bounds[of "LocalTime tz now"] dl by (simp add: msPerDay_def)
  then have f: "now < 20072 * msPerDay - tz * msPerMinute"
    by (simp add: LocalTime_def)
  have r: "resolve_absolute tz now dp ''15 DEC''
             = Some (Some (19706 * msPerDay - tz * msPerMinute))"
    using f by (simp add: resolve_absolute_no_year[OF dec15_parts] y c p)
  show ?thesis
    by (simp add: normalizeDate_absolute_format dec15_clean dec15_not_relative r
        format_local_midnight[OF z] dec15_full dec15_iso)
qed

lemma dec15_at_midnight:
  assumes z: "valid_zone tz" and n: "now = 20072 * msPerDay - tz * msPerMinute"
  shows "normalizeDate tz now dp (JString ''15 DEC'')
           = Inr \<lparr>full = JString ''15 December 2024'',
                  iso = Some (if 0 < tz then ''2024-12-14'' else ''2024-12-15'')\<rparr>"
proof -
  have "Day (LocalTime tz now) = Day (20072 * msPerDay)"
    unfolding n by (simp add: LocalTime_local_midnight)
  from date_fields_cong(1)[OF this] have "getFullYear tz now = YearFromTime (20072 * msPerDay)"
    by (simp add: getFullYear_def)
  moreover have "YearFromTime (20072 * msPerDay) = 2024" by code_simp
  ultimately have y: "getFullYear tz now = 2024" by simp
  have c: "new_Date tz 2024 11 15 = Some now"
    using TimeClip_local_midnight[OF z, of 20072] by (simp add: new_Date_value dec15_days n)
  have r: "resolve_absolute tz now dp ''15 DEC'' = Some (Some now)"
    by (simp add: resolve_absolute_no_year[OF dec15_parts] y c)
  have i: "take 10 (iso_date (20072 * msPerDay)) = ''2024-12-15''"
    "take 10 (iso_date (20071 * msPerDay)) = ''2024-12-14''"
    by code_simp+
  have "normalizeDate tz now dp (JString ''15 DEC'') = format_date tz (Some now)"
    by (simp add: normalizeDate_absolute_format dec15_clean dec15_not_relative r)
  also have "\<dots> = format_date tz (Some (20072 * msPerDay - tz * msPerMinute))"
    by (simp only: n)
  also have "\<dots> = Inr \<lparr>full = JString ''15 December 2024'',
                  iso = Some (if 0 < tz then ''2024-12-14'' else ''2024-12-15'')\<rparr>"
    by (simp add: format_local_midnight[OF z] dec15_full i)
  finally show ?thesis .
qed

text \<open>
  C5. An absolute input with a day and a month and no year token resolves to local
  midnight of that day in the year of \<^verbatim>\<open>now\<close>, and in the year before when that instant
  is strictly after \<^verbatim>\<open>now\<close>. The resolved instant is then not after \<^verbatim>\<open>now\<close> when the day is at
  most 31 (and the clock is not before 1970). With \<^verbatim>\<open>now\<close> on 2024-01-10 of the local
  clock, \<^verbatim>\<open>"15 DEC"\<close> resolves to 15 December 2023; with \<^verbatim>\<open>now\<close> exactly local midnight of
  15 December 2024 it stays in 2024. (\<^verbatim>\<open>iso\<close> is the UTC date of local midnight: the day
  before in the zones east of UTC.)
\<close>

theorem C5_year_inference:
  "(relativeMatch (clean str) = None
      \<and> parse_parts (split_ws (clean str)) = (Some d, Some m, None)
    \<longrightarrow> normalizeDate tz now dp (JString str) =
          (case (if (case new_Date tz (getFullYear tz now) m d of
                       Some t \<Rightarrow> now < t | None \<Rightarrow> False)
                 then new_Date tz (getFullYear tz now - 1) m d
                 else new_Date tz (getFullYear tz now) m d) of
             Some t \<Rightarrow> format_date tz (Some t)
           | None \<Rightarrow> Inr \<lparr>full = JString str, iso = None\<rparr>))
   \<and> (parse_parts (split_ws s) = (Some d, Some m, None) \<and> d \<le> 31
        \<and> 1970 \<le> getFullYear tz now \<and> resolve_absolute tz now dp s = Some (Some t)
      \<longrightarrow> t \<le> now)
   \<and> (valid_zone tz \<and> local_date tz now = (2024, 0, 10)
      \<longrightarrow> normalizeDate tz now dp (JString ''15 DEC'')
            = Inr \<lparr>full = JString ''15 December 2023'',
                   iso = Some (if 0 < tz then ''2023-12-14'' else ''2023-12-15'')\<rparr>)
   \<and> (valid_zone tz \<and> now = 20072 * msPerDay - tz * msPerMinute
      \<longrightarrow> normalizeDate tz now dp (JString ''15 DEC'')
            = Inr \<lparr>full = JString ''15 December 2024'',
                   iso = Some (if 0 < tz then ''2024-12-14'' else ''2024-12-15'')\<rparr>)"
proof (intro conjI impI)
  assume a: "relativeMatch (clean str) = None
      \<and> parse_parts (split_ws (clean str)) = (Some d, Some m, None)"
  then have ne: "str \<noteq> []" using parse_parts_empty by auto
  from a have p: "parse_parts (split_ws (clean str)) = (Some d, Some m, None)" by simp
  show "normalizeDate tz now dp (JString str) =
          (case (if (case new_Date tz (getFullYear tz now) m d of
                       Some t \<Rightarrow> now < t | None \<Rightarrow> False)
                 then new_Date tz (getFullYear tz now - 1) m d
                 else new_Date tz (getFullYear tz now) m d) of
             Some t \<Rightarrow> format_date tz (Some t)
           | None \<Rightarrow> Inr \<lparr>full = JString str, iso = None\<rparr>)"
    using a ne
    by (simp add: normalizeDate_absolute_format resolve_absolute_no_year[OF p]
        split: option.splits)
next
  assume "parse_parts (split_ws s) = (Some d, Some m, None) \<and> d \<le> 31
        \<and> 1970 \<le> getFullYear tz now \<and> resolve_absolute tz now dp s = Some (Some t)"
  then show "t \<le> now" using resolved_not_in_future[of s d m tz now dp t] by blast
next
  assume "valid_zone tz \<and> local_date tz now = (2024, 0, 10)"
  then show "normalizeDate tz now dp (JString ''15 DEC'')
            = Inr \<lparr>full = JString ''15 December 2023'',
                   iso = Some (if 0 < tz then ''2023-12-14'' else ''2023-12-15'')\<rparr>"
    using dec15_on_jan10 by blast
next
  assume "valid_zone tz \<and> now = 20072 * msPerDay - tz * msPerMinute"
  then show "normalizeDate tz now dp (JString ''15 DEC'')
            = Inr \<lparr>full = JString ''15 December 2024'',
                   iso = Some (if 0 < tz then ''2024-12-14'' else ''2024-12-15'')\<rparr>"
    using dec15_at_midnight by blast
qed

theorem C5_year_inference_witness:
  "normalizeDate 0 jan10_2024 no_date_parse (JString ''15 DEC'')
     = Inr \<lparr>full = JString ''15 December 2023'', iso = Some ''2023-12-15''\<rparr>
   \<and> normalizeDate 0 1734220800000 no_date_parse (JString ''15 DEC'')
     = Inr \<lparr>full = JString ''15 December 2024'', iso = Some ''2024-12-15''\<rparr>
   \<and> normalizeDate 0 1734220800001 no_date_parse (JString ''Dec 15'')
     = Inr \<lparr>full = JString ''15 December 2024'', iso = Some ''2024-12-15''\<rparr>
   \<and> 1702598400000 \<le> jan10_2024"
proof -
  note inst = C5_year_inference[of _ 15 11 0 _ no_date_parse "''15 DEC''" 1702598400000]
  have l: "valid_zone 0" "local_date 0 jan10_2024 = (2024, 0, 10)"
    by code_simp+
  have A: "normalizeDate 0 jan10_2024 no_date_parse (JString ''15 DEC'')
     = Inr \<lparr>full = JString ''15 December 2023'', iso = Some ''2023-12-15''\<rparr>"
    using inst[of "''15 DEC''" jan10_2024] l by simp
  have "(1734220800000::int) = 20072 * msPerDay - 0 * msPerMinute"
    by (simp add: msPerDay_def)
  then have B: "normalizeDate 0 1734220800000 no_date_parse (JString ''15 DEC'')
     = Inr \<lparr>full = JString ''15 December 2024'', iso = Some ''2024-12-15''\<rparr>"
    using inst[of "''15 DEC''" 1734220800000] l(1) by simp
  have c: "relativeMatch (clean ''Dec 15'') = None"
    "parse_parts (split_ws (clean ''Dec 15'')) = (Some 15, Some 11, None)"
    by code_simp+
  have e: "(case (if (case new_Date 0 (getFullYear 0 1734220800001) 11 15 of
                       Some t \<Rightarrow> 1734220800001 < t | None \<Rightarrow> False)
                 then new_Date 0 (getFullYear 0 1734220800001 - 1) 11 15
                 else new_Date 0 (getFullYear 0 1734220800001) 11 15) of
             Some t \<Rightarrow> format_date 0 (Some t)
           | None \<Rightarrow> Inr \<lparr>full = JString ''Dec 15'', iso = None\<rparr>)
          = Inr \<lparr>full = JString ''15 December 2024'', iso = Some ''2024-12-15''\<rparr>"
    by code_simp
  have C: "normalizeDate 0 1734220800001 no_date_parse (JString ''Dec 15'')
     = Inr \<lparr>full = JString ''15 December 2024'', iso = Some ''2024-12-15''\<rparr>"
    using inst[of "''Dec 15''" 1734220800001] c e by simp
  have r: "parse_parts (split_ws ''15 DEC'') = (Some 15, Some 11, None)"
    "(15::int) \<le> 31" "1970 \<le> getFullYear 0 jan10_2024"
    "resolve_absolute 0 jan10_2024 no_date_parse ''15 DEC'' = Some (Some 1702598400000)"
    by code_simp+
  have D: "1702598400000 \<le> jan10_2024"
    using inst[of "''15 DEC''" jan10_2024] r by blast
  show ?thesis by (intro conjI) (rule A, rule B, rule C, rule D)
qed

subsection \<open>Failure and exceptions\<close>

lemma normalizeDate_empty:
  "normalizeDate tz now dp (JString []) = Inr \<lparr>full = JString [], iso = None\<rparr>"
  by (simp add: normalizeDate_def)

lemma normalizeDate_throws:
  assumes "normalizeDate tz now dp raw = Inl e"
  shows "\<exists>str n u. raw = JString str \<and> relativeMatch (clean str) = Some (n, u)
            \<and> subtract_unit tz u n now = None"
proof (cases raw)
  case (JString str)
  show ?thesis
  proof (cases "relativeMatch (clean str)")
    case None
    have "str \<noteq> []" using assms JString by (auto simp: normalizeDate_empty)
    then show ?thesis
      using assms JString None
      by (auto simp: normalizeDate_absolute_format format_date_Some split: option.splits)
  next
    case (Some nu)
    obtain n u where nu: "nu = (n, u)" by (cases nu)
    have "format_date tz (subtract_unit tz u n now) = Inl e"
      using assms JString Some nu normalizeDate_relative[of str n u tz now dp] by simp
    then have "subtract_unit tz u n now = None"
      by (cases "subtract_unit tz u n now") (simp_all add: format_date_Some)
    then show ?thesis using JString Some nu by blast
  qed
qed (use assms in \<open>simp_all add: normalizeDate_def\<close>)

lemma resolve_absolute_unparsed:
  assumes "parse_parts (split_ws s) = (None, None, None)"
  shows "resolve_absolute tz now dp s
           = (case dp s of None \<Rightarrow> None | Some parsed \<Rightarrow> Some (TimeClip parsed))"
  using assms by (simp add: resolve_absolute_def)

lemma years_ago_match: "relativeMatch (clean ''300000 YEARS AGO'') = Some (300000, YEAR)"
  by code_simp

lemma years_ago_invalid: "subtract_unit 0 YEAR 300000 jan10_2024 = None"
  by code_simp

lemma garbage_clean: "clean ''garbage text'' = ''GARBAGE TEXT''"
  by code_simp

lemma garbage_not_relative: "relativeMatch ''GARBAGE TEXT'' = None"
  by code_simp

lemma garbage_parts: "parse_parts (split_ws ''GARBAGE TEXT'') = (None, None, None)"
  by code_simp


text \<open>
  C7. \<^verbatim>\<open>normalizeDate\<close> can throw. The absolute branch tests the date it built
  (\<^verbatim>\<open>isNaN(dateObj.getTime())\<close>, line 285) and returns the raw string; the relative branch
  does not test the date it shifted and calls \<^verbatim>\<open>toISOString()\<close> on it (line 246), which
  raises a \<^verbatim>\<open>RangeError\<close> on an invalid date: \<^verbatim>\<open>"300000 YEARS AGO"\<close> at 2024-01-10 sets the
  year to -297976, out of the range of time values. The rest of the claim holds: an input
  that is not a string comes back with a null \<^verbatim>\<open>iso\<close>, and so does \<^verbatim>\<open>"garbage text"\<close> when
  \<^verbatim>\<open>Date.parse\<close> rejects it. A relative input whose shifted date is invalid is the only
  input on which the function throws.
\<close>

theorem C7_relative_overflow_throws:
  "normalizeDate 0 jan10_2024 dp (JString ''300000 YEARS AGO'') = Inl RangeError
   \<and> (typeof raw \<noteq> ''string'' \<longrightarrow> normalizeDate tz now dp raw = Inr \<lparr>full = raw, iso = None\<rparr>)
   \<and> normalizeDate tz now dp JUndefined = Inr \<lparr>full = JUndefined, iso = None\<rparr>
   \<and> (dp ''GARBAGE TEXT'' = None \<longrightarrow>
        normalizeDate tz now dp (JString ''garbage text'')
          = Inr \<lparr>full = JString ''garbage text'', iso = None\<rparr>)
   \<and> (normalizeDate tz now dp raw = Inl e \<longrightarrow>
        (\<exists>str n u. raw = JString str \<and> relativeMatch (clean str) = Some (n, u)
            \<and> subtract_unit tz u n now = None))"
proof (intro conjI impI)
  show "normalizeDate 0 jan10_2024 dp (JString ''300000 YEARS AGO'') = Inl RangeError"
    by (simp add: normalizeDate_relative[OF years_ago_match] years_ago_invalid format_date_None)
next
  assume "typeof raw \<noteq> ''string''"
  then show "normalizeDate tz now dp raw = Inr \<lparr>full = raw, iso = None\<rparr>"
    by (rule normalizeDate_not_string)
next
  show "normalizeDate tz now dp JUndefined = Inr \<lparr>full = JUndefined, iso = None\<rparr>"
    by (simp add: normalizeDate_def)
next
  assume "dp ''GARBAGE TEXT'' = None"
  then show "normalizeDate tz now dp (JString ''garbage text'')
          = Inr \<lparr>full = JString ''garbage text'', iso = None\<rparr>"
    by (simp add: normalizeDate_absolute_format garbage_clean garbage_not_relative
        resolve_absolute_unparsed[OF garbage_parts])
next
  assume "normalizeDate tz now dp raw = Inl e"
  then show "\<exists>str n u. raw = JString str \<and> relativeMatch (clean str) = Some (n, u)
            \<and> subtract_unit tz u n now = None"
    by (rule normalizeDate_throws)
qed

theorem C7_relative_overflow_throws_witness:
  "normalizeDate 0 jan10_2024 no_date_parse (JString ''300000 YEARS AGO'') = Inl RangeError
   \<and> normalizeDate 0 jan10_2024 no_date_parse JNull = Inr \<lparr>full = JNull, iso = None\<rparr>
   \<and> normalizeDate 0 jan10_2024 no_date_parse (JString ''garbage text'')
        = Inr \<lparr>full = JString ''garbage text'', iso = None\<rparr>
   \<and> (\<exists>str n u. JString ''300000 YEARS AGO'' = JString str
          \<and> relativeMatch (clean str) = Some (n, u)
          \<and> subtract_unit 0 u n jan10_2024 = None)"
proof -
  note inst = C7_relative_overflow_throws[of no_date_parse _ 0 jan10_2024 RangeError]
  have A: "normalizeDate 0 jan10_2024 no_date_parse (JString ''300000 YEARS AGO'')
             = Inl RangeError"
    using inst[of JNull] by blast
  have B: "normalizeDate 0 jan10_2024 no_date_parse JNull = Inr \<lparr>full = JNull, iso = None\<rparr>"
    using inst[of JNull] by simp
  have "no_date_parse ''GARBAGE TEXT'' = None" by (simp add: no_date_parse_def)
  then have C: "normalizeDate 0 jan10_2024 no_date_parse (JString ''garbage text'')
        = Inr \<lparr>full = JString ''garbage text'', iso = None\<rparr>"
    using inst[of JNull] by blast
  have D: "\<exists>str n u. JString ''300000 YEARS AGO'' = JString str
          \<and> relativeMatch (clean str) = Some (n, u)
          \<and> subtract_unit 0 u n jan10_2024 = None"
    using inst[of "JString ''300000 YEARS AGO''"] A by blast
  show ?thesis by (intro conjI) (rule A, rule B, rule C, rule D)
qed

subsection \<open>Reading the clock\<close>

lemma resolve_absolute_clock_free:
  assumes "case parse_parts (split_ws s) of
             (Some day, Some month, year) \<Rightarrow> (case year of Some y \<Rightarrow> y \<noteq> 0 | None \<Rightarrow> False)
           | _ \<Rightarrow> True"
  shows "resolve_absolute tz now dp s = resolve_absolute tz now' dp s"
  using assms
  by (auto simp: resolve_absolute_def Let_def split: prod.splits option.splits)


text \<open>
  C9. The result is not a function of the input alone: \<^verbatim>\<open>"2 DAYS AGO"\<close> normalized on
  2024-01-10 and on 2024-01-11 gives two different dates.
\<close>

theorem C9_clock_dependence:
  "normalizeDate 0 jan10_2024 no_date_parse (JString ''2 DAYS AGO'')
     \<noteq> normalizeDate 0 jan11_2024 no_date_parse (JString ''2 DAYS AGO'')"
proof -
  have "normalizeDate 0 jan10_2024 no_date_parse (JString ''2 DAYS AGO'')
          = Inr \<lparr>full = JString ''8 January 2024'', iso = Some ''2024-01-08''\<rparr>"
    by code_simp
  moreover have "normalizeDate 0 jan11_2024 no_date_parse (JString ''2 DAYS AGO'')
          = Inr \<lparr>full = JString ''9 January 2024'', iso = Some ''2024-01-09''\<rparr>"
    by code_simp
  ultimately show ?thesis by simp
qed


text \<open>
  C9, amended. \<^verbatim>\<open>normalizeDate\<close> is a function of its input, the local zone, the clock
  and \<^verbatim>\<open>Date.parse\<close>. On every input on which it does not call \<^verbatim>\<open>new Date()\<close> (not a
  string, empty, or neither relative nor an absolute date without a year) the result is
  the same whatever the clock says.
\<close>

theorem C9_clock_free_inputs:
  "\<not> reads_clock raw \<longrightarrow> normalizeDate tz now dp raw = normalizeDate tz now' dp raw"
proof
  assume nr: "\<not> reads_clock raw"
  show "normalizeDate tz now dp raw = normalizeDate tz now' dp raw"
  proof (cases raw)
    case (JString str)
    show ?thesis
    proof (cases "str = []")
      case True
      then show ?thesis using JString by (simp add: normalizeDate_empty)
    next
      case False
      with nr JString have both: "\<not> (relativeMatch (clean str) \<noteq> None \<or>
           (case parse_parts (split_ws (clean str)) of
              (Some day, Some month, year) \<Rightarrow>
                (case year of Some y \<Rightarrow> y = 0 | None \<Rightarrow> True)
            | _ \<Rightarrow> False))"
        by (simp add: reads_clock_def)
      then have "\<not> relativeMatch (clean str) \<noteq> None"
        by (rule contrapos_nn) (rule disjI1)
      then have rel: "relativeMatch (clean str) = None" by (simp only: not_not)
      from both have "\<not> (case parse_parts (split_ws (clean str)) of
              (Some day, Some month, year) \<Rightarrow>
                (case year of Some y \<Rightarrow> y = 0 | None \<Rightarrow> True)
            | _ \<Rightarrow> False)"
        by (rule contrapos_nn) (rule disjI2)
      then have pp: "case parse_parts (split_ws (clean str)) of
             (Some day, Some month, year) \<Rightarrow> (case year of Some y \<Rightarrow> y \<noteq> 0 | None \<Rightarrow> False)
           | _ \<Rightarrow> True"
        by (simp split: prod.splits option.splits)
      show ?thesis
        unfolding JString normalizeDate_absolute_format[OF False rel]
          resolve_absolute_clock_free[OF pp, of tz now dp now'] ..
    qed
  qed (simp_all add: normalizeDate_def)
qed

theorem C9_clock_free_inputs_witness:
  "normalizeDate 330 jan10_2024 no_date_parse (JString ''14 NOV 2024'')
     = normalizeDate 330 jan11_2024 no_date_parse (JString ''14 NOV 2024'')
   \<and> normalizeDate 0 jan10_2024 no_date_parse (JString ''garbage text'')
     = normalizeDate 0 jan11_2024 no_date_parse (JString ''garbage text'')
   \<and> reads_clock (JString ''2 DAYS AGO'') \<and> reads_clock (JString ''15 DEC'')"
proof -
  have n: "\<not> reads_clock (JString ''14 NOV 2024'')" "\<not> reads_clock (JString ''garbage text'')"
    by code_simp+
  have A: "normalizeDate 330 jan10_2024 no_date_parse (JString ''14 NOV 2024'')
     = normalizeDate 330 jan11_2024 no_date_parse (JString ''14 NOV 2024'')"
    using C9_clock_free_inputs[of "JString ''14 NOV 2024''" 330 jan10_2024 no_date_parse
        jan11_2024] n(1) by blast
  have B: "normalizeDate 0 jan10_2024 no_date_parse (JString ''garbage text'')
     = normalizeDate 0 jan11_2024 no_date_parse (JString ''garbage text'')"
    using C9_clock_free_inputs[of "JString ''garbage text''" 0 jan10_2024 no_date_parse
        jan11_2024] n(2) by blast
  have C: "reads_clock (JString ''2 DAYS AGO'')" "reads_clock (JString ''15 DEC'')"
    by code_simp+
  show ?thesis by (intro conjI) (rule A, rule B, rule C(1), rule C(2))
qed

subsection \<open>Tokens of the absolute form\<close>

lemma set_js_trim: "set (js_trim s) \<subseteq> set s"
proof -
  have "set (dropWhile is_space (rev (dropWhile is_space s))) \<subseteq> set (rev (dropWhile is_space s))"
    by (auto dest: set_dropWhileD)
  also have "\<dots> \<subseteq> set s" by (auto dest: set_dropWhileD)
  finally show ?thesis by (simp add: js_trim_def)
qed

lemma upper_comma:
  assumes "(let n = (of_char c :: nat) in if 97 \<le> n \<and> n \<le> 122 then char_of (n - 32) else c)
             = CHR '',''"
  shows "c = CHR '',''"
proof -
  define n where "n = (of_char c :: nat)"
  from assms consider "97 \<le> n" "n \<le> 122" "(char_of (n - 32) :: char) = CHR '',''" | "c = CHR '',''"
    unfolding n_def Let_def by (auto split: if_splits)
  then show ?thesis
  proof cases
    case 1
    from 1(3) have "(of_char (char_of (n - 32) :: char) :: nat) = of_char (CHR '','')"
      by simp
    then have "(n - 32) mod 256 = 44" by simp
    then show ?thesis using 1(1,2) by simp
  next
    case 2
    then show ?thesis .
  qed
qed

lemma no_comma_in_clean: "CHR '','' \<notin> set (clean raw)"
proof
  assume "CHR '','' \<in> set (clean raw)"
  then obtain c where c: "c \<in> set (js_trim (strip_commas raw))"
    and u: "(let n = (of_char c :: nat) in if 97 \<le> n \<and> n \<le> 122 then char_of (n - 32) else c)
             = CHR '',''"
    by (auto simp: clean_def toUpperCase_def)
  from upper_comma[OF u] c set_js_trim[of "strip_commas raw"]
  show False by (auto simp: strip_commas_def)
qed

lemma parse_parts_month_token:
  "is_day_token p0 \<Longrightarrow> fst (snd (parse_parts (p0 # p1 # ps))) = months (take 3 p1)"
  "\<not> is_day_token p0 \<Longrightarrow> is_day_token p1 \<Longrightarrow>
     fst (snd (parse_parts (p0 # p1 # ps))) = months (take 3 p0)"
  by (simp_all add: parse_parts_def)

lemma parse_parts_year_token:
  "is_day_token p0 \<or> is_day_token p1 \<Longrightarrow>
     snd (snd (parse_parts (p0 # p1 # p2 # ps)))
       = (if length p2 = 4 \<and> list_all is_digit p2 then Some (parseInt p2) else None)"
  "snd (snd (parse_parts [p0, p1])) = None"
  by (auto simp: parse_parts_def is_year_token_def)

lemma nov14_short_parts:
  "parse_parts (split_ws (clean ''14 Nov 24'')) = (Some 14, Some 10, None)"
  "parse_parts (split_ws (clean ''14 Nov'')) = (Some 14, Some 10, None)"
  by code_simp+


text \<open>
  C8. In both patterns the month is looked up from the first three characters of its
  token, so \<^verbatim>\<open>NOVEMBER\<close> and \<^verbatim>\<open>NOV\<close> are both month 10. Cleaning removes every comma:
  \<^verbatim>\<open>"14,"\<close> becomes \<^verbatim>\<open>"14"\<close>. The third token is a year exactly when it is four digits;
  with two tokens there is no year. \<^verbatim>\<open>"14 Nov 24"\<close> has no year: it resolves as
  \<^verbatim>\<open>"14 Nov"\<close> does, from the current year or the one before.
\<close>

theorem C8_token_patterns:
  "(is_day_token p0 \<longrightarrow> fst (snd (parse_parts (p0 # p1 # ps))) = months (take 3 p1))
   \<and> (\<not> is_day_token p0 \<and> is_day_token p1 \<longrightarrow>
        fst (snd (parse_parts (p0 # p1 # ps))) = months (take 3 p0))
   \<and> months (take 3 ''NOVEMBER'') = Some 10 \<and> months (take 3 ''NOV'') = Some 10
   \<and> clean ''14,'' = ''14'' \<and> CHR '','' \<notin> set (clean raw)
   \<and> (is_day_token p0 \<or> is_day_token p1 \<longrightarrow>
        snd (snd (parse_parts (p0 # p1 # p2 # ps)))
          = (if length p2 = 4 \<and> list_all is_digit p2 then Some (parseInt p2) else None))
   \<and> snd (snd (parse_parts [p0, p1])) = None
   \<and> parse_parts (split_ws (clean ''14 Nov 24'')) = (Some 14, Some 10, None)
   \<and> resolve_absolute tz now dp (clean ''14 Nov 24'')
       = resolve_absolute tz now dp (clean ''14 Nov'')
   \<and> resolve_absolute tz now dp (clean ''14 Nov 24'')
       = Some (if (case new_Date tz (getFullYear tz now) 10 14 of
                     Some t \<Rightarrow> now < t | None \<Rightarrow> False)
               then new_Date tz (getFullYear tz now - 1) 10 14
               else new_Date tz (getFullYear tz now) 10 14)"
proof -
  have a: "months (take 3 ''NOVEMBER'') = Some 10" "months (take 3 ''NOV'') = Some 10"
    "clean ''14,'' = ''14''"
    by code_simp+
  have b: "resolve_absolute tz now dp (clean ''14 Nov 24'')
       = resolve_absolute tz now dp (clean ''14 Nov'')"
    by (simp only: resolve_absolute_no_year[OF nov14_short_parts(1)]
        resolve_absolute_no_year[OF nov14_short_parts(2)])
  show ?thesis
    using parse_parts_month_token[of p0 p1 ps] parse_parts_year_token(1)[of p0 p1 p2 ps]
      parse_parts_year_token(2)[of p0 p1]
      no_comma_in_clean[of raw] resolve_absolute_no_year[OF nov14_short_parts(1), of tz now dp]
    by (intro conjI impI a b nov14_short_parts(1)) simp_all
qed

theorem C8_token_patterns_witness:
  "fst (snd (parse_parts [''14'', ''NOVEMBER'', ''2024''])) = Some 10
   \<and> fst (snd (parse_parts [''NOV'', ''14'', ''2024''])) = Some 10
   \<and> snd (snd (parse_parts [''14'', ''NOVEMBER'', ''2024''])) = Some 2024
   \<and> snd (snd (parse_parts [''14'', ''NOVEMBER'', ''24''])) = None
   \<and> clean ''14,'' = ''14''"
proof -
  have d: "is_day_token ''14''" "\<not> is_day_token ''NOV''"
    and m: "months (take 3 ''NOVEMBER'') = Some 10" "months (take 3 ''NOV'') = Some 10"
    and y: "(if length ''2024'' = 4 \<and> list_all is_digit ''2024''
             then Some (parseInt ''2024'') else None) = Some 2024"
      "(if length ''24'' = 4 \<and> list_all is_digit ''24''
             then Some (parseInt ''24'') else None) = None"
    by code_simp+
  have A: "fst (snd (parse_parts [''14'', ''NOVEMBER'', ''2024''])) = Some 10"
    using C8_token_patterns[of "''14''" "''NOVEMBER''" "[''2024'']"] d m by simp
  have B: "fst (snd (parse_parts [''NOV'', ''14'', ''2024''])) = Some 10"
    using C8_token_patterns[of "''NOV''" "''14''" "[''2024'']"] d m by simp
  have C: "snd (snd (parse_parts [''14'', ''NOVEMBER'', ''2024''])) = Some 2024"
    using C8_token_patterns[of "''14''" "''NOVEMBER''" "[]" _ "''2024''"] d y(1)
    by (simp only: simp_thms)
  have D: "snd (snd (parse_parts [''14'', ''NOVEMBER'', ''24''])) = None"
    using C8_token_patterns[of "''14''" "''NOVEMBER''" "[]" _ "''24''"] d y(2)
    by (simp only: simp_thms)
  have E: "clean ''14,'' = ''14''"
    using C8_token_patterns[of "''14''" "''NOVEMBER''" "[]"] by blast
  show ?thesis by (intro conjI) (rule A, rule B, rule C, rule D, rule E)
qed

end
